theory Spec2Isabelle
  imports
    Main
    "HOL-Library.Product_Lexorder"
    "HOL-Library.List_Lexorder"
    "HOL-Library.Char_ord"
    "HOL-Library.Option_ord"
    "HOL-Library.Multiset"
begin

section \<open>Data model (src/app.py, lines 27-108)\<close>

text \<open>
  Each SQLAlchemy model is a record, each table a list of rows in insertion order.
  Python and SQLite integers are \<open>int\<close>; a nullable column is an \<open>option\<close>, with
  \<open>None\<close> for SQL NULL. The \<open>created_at\<close> timestamps are left out: no handler reads
  them. The completion flags are written by every insert (column default \<open>False\<close>)
  and are plain booleans.
\<close>

record user =
  u_id :: int
  username :: string
  password_hash :: string
  dark_mode :: bool

record category =
  c_id :: int
  c_name :: string
  c_color :: "string option"
  c_user_id :: int

record task =
  t_id :: int
  t_description :: string
  t_estimated_time :: int
  t_is_completed :: bool
  t_priority :: "string option"
  t_time_block :: "string option"
  t_order_index :: "int option"
  t_user_id :: int
  t_category_id :: "int option"

record subtask =
  s_id :: int
  s_description :: string
  s_is_completed :: bool
  s_order_index :: "int option"
  s_task_id :: int

record database =
  users :: "user list"
  categories :: "category list"
  tasks :: "task list"
  subtasks :: "subtask list"

text \<open>The state after \<open>db.create_all()\<close> on a new file: four empty tables.\<close>

definition empty_db :: database where
  "empty_db = \<lparr>users = [], categories = [], tasks = [], subtasks = []\<rparr>"

text \<open>
  What a handler answers. An unhandled exception or an abort is the left summand; a
  redirect to the dashboard is the right one, with the committed database and the message
  passed to \<open>flash\<close>, if any.
\<close>

datatype error = NotFound | ValueError | OverflowError | AttributeError | IntegrityError

type_synonym flash = "string option"

type_synonym outcome = "error + database \<times> flash"

text \<open>
  The stored state once the request is over: a handler that raised has committed
  nothing, so the database is the one it started from.
\<close>

definition stored_after :: "database \<Rightarrow> outcome \<Rightarrow> database" where
  "stored_after db r = (case r of Inl e \<Rightarrow> db | Inr (db', fl) \<Rightarrow> db')"

section \<open>Library behaviour the handlers rely on\<close>

subsection \<open>SQL\<close>

text \<open>
  A new row of a table with an integer primary key gets the largest key in the table
  plus one, and 1 in an empty table (SQLite rowid).
\<close>

definition sql_max :: "int list \<Rightarrow> int option" where
  "sql_max ks = (case ks of [] \<Rightarrow> None | k # ks' \<Rightarrow> Some (fold max ks' k))"

definition next_id :: "int list \<Rightarrow> int" where
  "next_id ks = (case sql_max ks of None \<Rightarrow> 1 | Some m \<Rightarrow> m + 1)"

text \<open>\<open>func.max\<close> over a nullable column skips NULL and is NULL when nothing is left.\<close>

definition sql_max_col :: "int option list \<Rightarrow> int option" where
  "sql_max_col col = sql_max (List.map_filter (\<lambda>k. k) col)"

text \<open>A comparison with NULL is never true.\<close>

definition sql_lt :: "int option \<Rightarrow> int option \<Rightarrow> bool" where
  "sql_lt a b = (case (a, b) of (Some x, Some y) \<Rightarrow> x < y | _ \<Rightarrow> False)"

text \<open>
  \<open>ORDER BY key DESC\<close> and \<open>ORDER BY key\<close> followed by \<open>first()\<close>. Among rows with
  the same key SQL leaves the choice open; the model takes the first one in table order.
\<close>

fun first_desc :: "('a \<Rightarrow> 'k::linorder) \<Rightarrow> 'a list \<Rightarrow> 'a option" where
  "first_desc key [] = None"
| "first_desc key (x # xs) =
     (case first_desc key xs of
        None \<Rightarrow> Some x
      | Some y \<Rightarrow> if key x < key y then Some y else Some x)"

fun first_asc :: "('a \<Rightarrow> 'k::linorder) \<Rightarrow> 'a list \<Rightarrow> 'a option" where
  "first_asc key [] = None"
| "first_asc key (x # xs) =
     (case first_asc key xs of
        None \<Rightarrow> Some x
      | Some y \<Rightarrow> if key y < key x then Some y else Some x)"

subsection \<open>Python\<close>

text \<open>
  \<open>not s\<close> for a form value: true for a missing field and for the empty string.
\<close>

definition falsy :: "string option \<Rightarrow> bool" where
  "falsy s = (case s of None \<Rightarrow> True | Some v \<Rightarrow> v = [])"

text \<open>
  A \<open>str\<close> is modelled by its UTF-8 encoding, one \<open>char\<close> per byte: comparing the
  encodings byte by byte orders two strings as Python orders them, by code point.

  What the interpreter and the database engine look up in their own tables is not part of
  the repository and is a parameter of the model:
  \<^item> \<open>str_lower\<close> is \<open>str.lower()\<close> for a string with a character outside ASCII
    (the case mapping of the Unicode tables);
  \<^item> \<open>int_non_ascii\<close> is \<open>int(s)\<close> for a string with a character outside ASCII
    (the Unicode decimal digits and white space), \<open>None\<close> where it raises
    \<open>ValueError\<close>;
  \<^item> \<open>text_as_integer\<close> is the integer that SQLite's INTEGER affinity makes of a text
    value, \<open>None\<close> when the text stays text or becomes a real that is no integer.
\<close>

record library =
  str_lower :: "string \<Rightarrow> string"
  int_non_ascii :: "string \<Rightarrow> int option"
  text_as_integer :: "string \<Rightarrow> int option"

definition is_ascii :: "char \<Rightarrow> bool" where
  "is_ascii c = (of_char c < (128::nat))"

text \<open>
  \<open>s.lower()\<close>: on an ASCII string the letters A to Z are replaced by a to z and every
  other character is kept.
\<close>

definition ascii_lower_char :: "char \<Rightarrow> char" where
  "ascii_lower_char c =
     (if CHR ''A'' \<le> c \<and> c \<le> CHR ''Z'' then char_of (of_char c + (32::nat)) else c)"

definition ascii_lower :: "string \<Rightarrow> string" where
  "ascii_lower s = map ascii_lower_char s"

definition lower :: "library \<Rightarrow> string \<Rightarrow> string" where
  "lower lib s = (if list_all is_ascii s then ascii_lower s else str_lower lib s)"

text \<open>
  \<open>int(s)\<close> on an ASCII string: the white space around the numeral is dropped (blank,
  tab, line feed, vertical tab, form feed, carriage return), one sign is allowed, the
  digits may be separated by single underscores, and a numeral of more than 4300 digits is
  refused; anything else raises \<open>ValueError\<close> as well, here \<open>None\<close>.
\<close>

definition is_digit :: "char \<Rightarrow> bool" where
  "is_digit c = (CHR ''0'' \<le> c \<and> c \<le> CHR ''9'')"

definition digit_val :: "char \<Rightarrow> int" where
  "digit_val c = int (of_char c) - 48"

definition is_space :: "char \<Rightarrow> bool" where
  "is_space c = (c \<in> set [CHR '' '', CHR 0x09, CHR 0x0A, CHR 0x0B, CHR 0x0C, CHR 0x0D])"

definition strip :: "string \<Rightarrow> string" where
  "strip s = rev (dropWhile is_space (rev (dropWhile is_space s)))"

fun more_digits :: "int \<Rightarrow> string \<Rightarrow> int option" where
  "more_digits acc [] = Some acc"
| "more_digits acc (c # cs) =
     (if is_digit c then more_digits (10 * acc + digit_val c) cs
      else if c = CHR ''_'' then
        (case cs of
           [] \<Rightarrow> None
         | d # ds \<Rightarrow> if is_digit d then more_digits (10 * acc + digit_val d) ds else None)
      else None)"

definition digits :: "string \<Rightarrow> int option" where
  "digits s = (case s of
                 [] \<Rightarrow> None
               | c # cs \<Rightarrow>
                   if length (filter is_digit s) > 4300 then None
                   else if is_digit c then more_digits (digit_val c) cs else None)"

definition ascii_int :: "string \<Rightarrow> int option" where
  "ascii_int s =
     (case strip s of
        [] \<Rightarrow> None
      | c # cs \<Rightarrow>
          if c = CHR ''-'' then map_option uminus (digits cs)
          else if c = CHR ''+'' then digits cs
          else digits (c # cs))"

definition py_int :: "library \<Rightarrow> string \<Rightarrow> int option" where
  "py_int lib s = (if list_all is_ascii s then ascii_int s else int_non_ascii lib s)"

text \<open>
  An integer column holds 64 bits: binding a larger Python integer to a statement raises
  \<open>OverflowError\<close>.
\<close>

definition sqlite_max_int :: int where
  "sqlite_max_int = 9223372036854775807"

section \<open>Queries and row updates shared by the handlers\<close>

text \<open>
  An object loaded by the session stands for the row with its primary key, and assigning
  to one of its attributes updates that row at the next flush.
\<close>

definition upd_task :: "int \<Rightarrow> (task \<Rightarrow> task) \<Rightarrow> database \<Rightarrow> database" where
  "upd_task i f db = db\<lparr>tasks := map (\<lambda>t. if t_id t = i then f t else t) (tasks db)\<rparr>"

definition upd_subtask :: "int \<Rightarrow> (subtask \<Rightarrow> subtask) \<Rightarrow> database \<Rightarrow> database" where
  "upd_subtask i f db =
     db\<lparr>subtasks := map (\<lambda>s. if s_id s = i then f s else s) (subtasks db)\<rparr>"

text \<open>\<open>Task.query.filter_by(id=task_id, user_id=current_user.id).first()\<close>\<close>

definition own_task :: "int \<Rightarrow> int \<Rightarrow> database \<Rightarrow> task option" where
  "own_task uid task_id db = find (\<lambda>t. t_id t = task_id \<and> t_user_id t = uid) (tasks db)"

text \<open>
  \<open>Subtask.query.join(Task).filter(Subtask.id == subtask_id,
  Task.user_id == current_user.id).first()\<close>
\<close>

definition own_subtask :: "int \<Rightarrow> int \<Rightarrow> database \<Rightarrow> subtask option" where
  "own_subtask uid subtask_id db =
     find (\<lambda>s. s_id s = subtask_id \<and>
                (\<exists>t \<in> set (tasks db). t_id t = s_task_id s \<and> t_user_id t = uid))
          (subtasks db)"

text \<open>The relationship \<open>Task.subtasks\<close> and the properties built on it (lines 81-91).\<close>

definition task_subtasks :: "database \<Rightarrow> int \<Rightarrow> subtask list" where
  "task_subtasks db task_id = filter (\<lambda>s. s_task_id s = task_id) (subtasks db)"

definition subtask_count :: "database \<Rightarrow> int \<Rightarrow> nat" where
  "subtask_count db task_id = length (task_subtasks db task_id)"

definition completed_subtask_count :: "database \<Rightarrow> int \<Rightarrow> nat" where
  "completed_subtask_count db task_id =
     length (filter s_is_completed (task_subtasks db task_id))"

definition has_subtasks :: "database \<Rightarrow> int \<Rightarrow> bool" where
  "has_subtasks db task_id = (subtask_count db task_id > 0)"

section \<open>The display sorter (lines 280-298)\<close>

text \<open>
  The two rank dictionaries, and \<open>dict.get\<close> with a default; the looked-up column may
  be NULL, which is no key of either dictionary.
\<close>

definition priority_order :: "(string \<times> int) list" where
  "priority_order = [(''high'', 1), (''medium'', 2), (''low'', 3)]"

definition time_block_order :: "(string \<times> int) list" where
  "time_block_order = [(''morning'', 1), (''afternoon'', 2), (''evening'', 3), (''any'', 4)]"

definition dict_get :: "(string \<times> int) list \<Rightarrow> string option \<Rightarrow> int \<Rightarrow> int" where
  "dict_get d k dflt =
     (case k of
        None \<Rightarrow> dflt
      | Some s \<Rightarrow> (case map_of d s of None \<Rightarrow> dflt | Some v \<Rightarrow> v))"

text \<open>The five components of the key, named as the local variables of the source.\<close>

definition completion_key :: "task \<Rightarrow> int" where
  "completion_key t = (if t_is_completed t then 1 else 0)"

definition order_key :: "task \<Rightarrow> int" where
  "order_key t = (case t_order_index t of Some k \<Rightarrow> k | None \<Rightarrow> 999)"

definition block_key :: "task \<Rightarrow> int" where
  "block_key t = dict_get time_block_order (t_time_block t) 99"

definition priority_key :: "task \<Rightarrow> int" where
  "priority_key t = dict_get priority_order (t_priority t) 99"

definition name_key :: "library \<Rightarrow> task \<Rightarrow> string" where
  "name_key lib t = lower lib (t_description t)"

definition task_sort_key ::
  "library \<Rightarrow> task \<Rightarrow> int \<times> int \<times> int \<times> int \<times> string" where
  "task_sort_key lib t =
     (completion_key t, order_key t, block_key t, priority_key t, name_key lib t)"

text \<open>
  \<open>sorted(tasks, key=task_sort_key)\<close>: tuples compare lexicographically, strings
  character by character, and the sort is stable, as \<open>sort_key\<close> is.
\<close>

definition sort_tasks :: "library \<Rightarrow> task list \<Rightarrow> task list" where
  "sort_tasks lib ts = sort_key (task_sort_key lib) ts"

section \<open>The handlers\<close>

text \<open>
  Every handler below \<open>register\<close> is behind \<open>login_required\<close>; \<open>uid\<close> is
  \<open>current_user.id\<close>. The form fields are \<open>request.form.get\<close> results: \<open>None\<close>
  for a field the request does not carry.
\<close>

record task_form =
  f_description :: "string option"
  f_estimated_time :: "string option"
  f_priority :: "string option"
  f_time_block :: "string option"
  f_category_id :: "string option"
  f_order_index :: "string option"

definition invalid_task_msg :: string where
  "invalid_task_msg = ''Please enter a valid task description and estimated time.''"

definition invalid_subtask_msg :: string where
  "invalid_subtask_msg = ''Please enter a valid subtask description.''"

definition invalid_category_msg :: string where
  "invalid_category_msg = ''Please enter a valid category name.''"

definition duplicate_category_msg :: string where
  "duplicate_category_msg = ''A category with this name already exists.''"

text \<open>
  Lines 321-327 and 493-499: a category the user does not own is dropped. The form
  value is text; the query compares it with the integer column, and the insert or update
  stores it in one, both under INTEGER affinity.
\<close>

definition checked_category ::
  "library \<Rightarrow> int \<Rightarrow> string option \<Rightarrow> database \<Rightarrow> int option" where
  "checked_category lib uid category_id db =
     (case category_id of
        None \<Rightarrow> None
      | Some c \<Rightarrow>
          if c = [] \<or> c = ''none'' then None
          else (case text_as_integer lib c of
                  None \<Rightarrow> None
                | Some n \<Rightarrow>
                    if \<exists>cat \<in> set (categories db). c_id cat = n \<and> c_user_id cat = uid
                    then Some n else None))"

text \<open>
  A column default is used by an insert when the constructor got no value or \<open>None\<close>.
\<close>

definition or_default :: "string option \<Rightarrow> string \<Rightarrow> string option" where
  "or_default v d = (case v of None \<Rightarrow> Some d | Some x \<Rightarrow> Some x)"

subsection \<open>\<open>add_task\<close> (lines 307-345)\<close>

text \<open>
  \<open>highest_order\<close> is \<open>max(order_index) or 0\<close>: 0 for NULL, and for 0 itself.
\<close>

definition or_zero :: "int option \<Rightarrow> int" where
  "or_zero m = (case m of None \<Rightarrow> 0 | Some k \<Rightarrow> if k = 0 then 0 else k)"

definition add_task :: "library \<Rightarrow> int \<Rightarrow> task_form \<Rightarrow> database \<Rightarrow> outcome" where
  "add_task lib uid form db =
     (case f_description form of
        None \<Rightarrow> Inr (db, Some invalid_task_msg)
      | Some description \<Rightarrow>
          if description = [] \<or> falsy (f_estimated_time form)
          then Inr (db, Some invalid_task_msg)
          else
            (case Option.bind (f_estimated_time form) (py_int lib) of
               None \<Rightarrow> Inl ValueError
             | Some estimated_time \<Rightarrow>
                 if estimated_time \<le> 0 then Inr (db, Some invalid_task_msg)
                 else if estimated_time > sqlite_max_int then Inl OverflowError
                 else
                   let category_id = checked_category lib uid (f_category_id form) db;
                       highest_order =
                         or_zero (sql_max_col (map t_order_index
                           (filter (\<lambda>t. t_user_id t = uid) (tasks db))));
                       new_task =
                         \<lparr>t_id = next_id (map t_id (tasks db)),
                          t_description = description,
                          t_estimated_time = estimated_time,
                          t_is_completed = False,
                          t_priority = or_default (f_priority form) ''medium'',
                          t_time_block = or_default (f_time_block form) ''any'',
                          t_order_index = Some (highest_order + 1),
                          t_user_id = uid,
                          t_category_id = category_id\<rparr>
                   in Inr (db\<lparr>tasks := tasks db @ [new_task]\<rparr>, None)))"

subsection \<open>\<open>toggle_task\<close> (lines 347-359)\<close>

definition toggle_task :: "int \<Rightarrow> int \<Rightarrow> database \<Rightarrow> outcome" where
  "toggle_task uid task_id db =
     (case own_task uid task_id db of
        None \<Rightarrow> Inl NotFound
      | Some task \<Rightarrow>
          let is_completed = \<not> t_is_completed task;
              db1 = upd_task task_id (\<lambda>t. t\<lparr>t_is_completed := is_completed\<rparr>) db;
              db2 = (if is_completed \<and> has_subtasks db1 task_id
                     then fold (\<lambda>subtask.
                                  upd_subtask (s_id subtask) (\<lambda>s. s\<lparr>s_is_completed := True\<rparr>))
                               (task_subtasks db1 task_id) db1
                     else db1)
          in Inr (db2, None))"

subsection \<open>\<open>add_subtask\<close> (lines 361-387)\<close>

definition add_subtask :: "int \<Rightarrow> int \<Rightarrow> string option \<Rightarrow> database \<Rightarrow> outcome" where
  "add_subtask uid task_id subtask_description db =
     (case own_task uid task_id db of
        None \<Rightarrow> Inl NotFound
      | Some task \<Rightarrow>
          (case subtask_description of
             None \<Rightarrow> Inr (db, Some invalid_subtask_msg)
           | Some description \<Rightarrow>
               if description = [] then Inr (db, Some invalid_subtask_msg)
               else
                 let highest_order =
                       or_zero (sql_max_col (map s_order_index (task_subtasks db task_id)));
                     new_subtask =
                       \<lparr>s_id = next_id (map s_id (subtasks db)),
                        s_description = description,
                        s_is_completed = False,
                        s_order_index = Some (highest_order + 1),
                        s_task_id = task_id\<rparr>;
                     db1 = db\<lparr>subtasks := subtasks db @ [new_subtask]\<rparr>;
                     db2 = (if t_is_completed task
                            then upd_task task_id (\<lambda>t. t\<lparr>t_is_completed := False\<rparr>) db1
                            else db1)
                 in Inr (db2, None)))"

subsection \<open>\<open>toggle_subtask\<close> (lines 389-405)\<close>

definition toggle_subtask :: "int \<Rightarrow> int \<Rightarrow> database \<Rightarrow> outcome" where
  "toggle_subtask uid subtask_id db =
     (case own_subtask uid subtask_id db of
        None \<Rightarrow> Inl NotFound
      | Some subtask \<Rightarrow>
          let is_completed = \<not> s_is_completed subtask;
              db1 = upd_subtask subtask_id (\<lambda>s. s\<lparr>s_is_completed := is_completed\<rparr>) db;
              parent_task = s_task_id subtask;
              db2 = (if subtask_count db1 parent_task = completed_subtask_count db1 parent_task
                     then upd_task parent_task (\<lambda>t. t\<lparr>t_is_completed := True\<rparr>) db1
                     else upd_task parent_task (\<lambda>t. t\<lparr>t_is_completed := False\<rparr>) db1)
          in Inr (db2, None))"

subsection \<open>\<open>edit_subtask\<close> (lines 407-419)\<close>

definition edit_subtask :: "int \<Rightarrow> int \<Rightarrow> string option \<Rightarrow> database \<Rightarrow> outcome" where
  "edit_subtask uid subtask_id description db =
     (case own_subtask uid subtask_id db of
        None \<Rightarrow> Inl NotFound
      | Some subtask \<Rightarrow>
          (case description of
             None \<Rightarrow> Inr (db, Some invalid_subtask_msg)
           | Some d \<Rightarrow>
               if d = [] then Inr (db, Some invalid_subtask_msg)
               else Inr (upd_subtask subtask_id (\<lambda>s. s\<lparr>s_description := d\<rparr>) db, None)))"

subsection \<open>\<open>move_subtask_up\<close> and \<open>move_subtask_down\<close> (lines 421-457)\<close>

definition move_subtask_up :: "int \<Rightarrow> int \<Rightarrow> database \<Rightarrow> outcome" where
  "move_subtask_up uid subtask_id db =
     (case own_subtask uid subtask_id db of
        None \<Rightarrow> Inl NotFound
      | Some subtask \<Rightarrow>
          (case first_desc s_order_index
                  (filter (\<lambda>s. s_task_id s = s_task_id subtask \<and>
                               sql_lt (s_order_index s) (s_order_index subtask) \<and>
                               s_is_completed s = s_is_completed subtask)
                          (subtasks db)) of
             None \<Rightarrow> Inr (db, None)
           | Some prev_subtask \<Rightarrow>
               Inr (upd_subtask (s_id prev_subtask)
                      (\<lambda>s. s\<lparr>s_order_index := s_order_index subtask\<rparr>)
                      (upd_subtask subtask_id
                         (\<lambda>s. s\<lparr>s_order_index := s_order_index prev_subtask\<rparr>) db),
                    None)))"

definition move_subtask_down :: "int \<Rightarrow> int \<Rightarrow> database \<Rightarrow> outcome" where
  "move_subtask_down uid subtask_id db =
     (case own_subtask uid subtask_id db of
        None \<Rightarrow> Inl NotFound
      | Some subtask \<Rightarrow>
          (case first_asc s_order_index
                  (filter (\<lambda>s. s_task_id s = s_task_id subtask \<and>
                               sql_lt (s_order_index subtask) (s_order_index s) \<and>
                               s_is_completed s = s_is_completed subtask)
                          (subtasks db)) of
             None \<Rightarrow> Inr (db, None)
           | Some next_subtask \<Rightarrow>
               Inr (upd_subtask (s_id next_subtask)
                      (\<lambda>s. s\<lparr>s_order_index := s_order_index subtask\<rparr>)
                      (upd_subtask subtask_id
                         (\<lambda>s. s\<lparr>s_order_index := s_order_index next_subtask\<rparr>) db),
                    None)))"

subsection \<open>\<open>delete_subtask\<close> (lines 460-476)\<close>

definition delete_subtask :: "int \<Rightarrow> int \<Rightarrow> database \<Rightarrow> outcome" where
  "delete_subtask uid subtask_id db =
     (case own_subtask uid subtask_id db of
        None \<Rightarrow> Inl NotFound
      | Some subtask \<Rightarrow>
          let parent_task = s_task_id subtask;
              db1 = db\<lparr>subtasks := filter (\<lambda>s. s_id s \<noteq> subtask_id) (subtasks db)\<rparr>;
              db2 = (if subtask_count db1 parent_task > 0 \<and>
                        subtask_count db1 parent_task = completed_subtask_count db1 parent_task
                     then upd_task parent_task (\<lambda>t. t\<lparr>t_is_completed := True\<rparr>) db1
                     else db1)
          in Inr (db2, None))"

subsection \<open>\<open>edit_task\<close> (lines 478-508)\<close>

definition edit_task ::
  "library \<Rightarrow> int \<Rightarrow> int \<Rightarrow> task_form \<Rightarrow> database \<Rightarrow> outcome" where
  "edit_task lib uid task_id form db =
     (case own_task uid task_id db of
        None \<Rightarrow> Inl NotFound
      | Some task \<Rightarrow>
          (case f_description form of
             None \<Rightarrow> Inr (db, Some invalid_task_msg)
           | Some description \<Rightarrow>
               if description = [] \<or> falsy (f_estimated_time form)
               then Inr (db, Some invalid_task_msg)
               else
                 (case Option.bind (f_estimated_time form) (py_int lib) of
                    None \<Rightarrow> Inl ValueError
                  | Some estimated_time \<Rightarrow>
                      if estimated_time \<le> 0 then Inr (db, Some invalid_task_msg)
                      else if estimated_time > sqlite_max_int then Inl OverflowError
                      else
                        let category_id = checked_category lib uid (f_category_id form) db
                        in Inr (upd_task task_id
                                  (\<lambda>t. t\<lparr>t_description := description,
                                          t_estimated_time := estimated_time,
                                          t_priority := f_priority form,
                                          t_time_block := f_time_block form,
                                          t_category_id := category_id\<rparr>) db,
                                None))))"

subsection \<open>\<open>delete_task\<close> (lines 510-516)\<close>

text \<open>The relationship cascades: the subtasks of the deleted task go with it.\<close>

definition delete_task :: "int \<Rightarrow> int \<Rightarrow> database \<Rightarrow> outcome" where
  "delete_task uid task_id db =
     (case own_task uid task_id db of
        None \<Rightarrow> Inl NotFound
      | Some task \<Rightarrow>
          Inr (db\<lparr>tasks := filter (\<lambda>t. t_id t \<noteq> task_id) (tasks db),
                  subtasks := filter (\<lambda>s. s_task_id s \<noteq> task_id) (subtasks db)\<rparr>,
               None))"

subsection \<open>\<open>reset_all_tasks\<close> (lines 518-528)\<close>

definition reset_task :: "task \<Rightarrow> database \<Rightarrow> database" where
  "reset_task task db =
     (let db1 = upd_task (t_id task) (\<lambda>t. t\<lparr>t_is_completed := False\<rparr>) db
      in fold (\<lambda>subtask. upd_subtask (s_id subtask) (\<lambda>s. s\<lparr>s_is_completed := False\<rparr>))
              (task_subtasks db1 (t_id task)) db1)"

definition reset_all_tasks :: "int \<Rightarrow> database \<Rightarrow> outcome" where
  "reset_all_tasks uid db =
     Inr (fold reset_task (filter (\<lambda>t. t_user_id t = uid) (tasks db)) db, None)"

subsection \<open>The category handlers (lines 530-593)\<close>

definition add_category :: "int \<Rightarrow> string option \<Rightarrow> string option \<Rightarrow> database \<Rightarrow> outcome" where
  "add_category uid name color db =
     (case name of
        None \<Rightarrow> Inr (db, Some invalid_category_msg)
      | Some n \<Rightarrow>
          if n = [] then Inr (db, Some invalid_category_msg)
          else if \<exists>c \<in> set (categories db). c_name c = n \<and> c_user_id c = uid
          then Inr (db, Some duplicate_category_msg)
          else
            let new_category =
                  \<lparr>c_id = next_id (map c_id (categories db)),
                   c_name = n,
                   c_color = or_default color ''blue'',
                   c_user_id = uid\<rparr>
            in Inr (db\<lparr>categories := categories db @ [new_category]\<rparr>, None))"

definition edit_category ::
  "int \<Rightarrow> int \<Rightarrow> string option \<Rightarrow> string option \<Rightarrow> database \<Rightarrow> outcome" where
  "edit_category uid category_id name color db =
     (case find (\<lambda>c. c_id c = category_id \<and> c_user_id c = uid) (categories db) of
        None \<Rightarrow> Inl NotFound
      | Some category \<Rightarrow>
          (case name of
             None \<Rightarrow> Inr (db, Some invalid_category_msg)
           | Some n \<Rightarrow>
               if n = [] then Inr (db, Some invalid_category_msg)
               else
                 (case find (\<lambda>c. c_name c = n \<and> c_user_id c = uid) (categories db) of
                    Some existing \<Rightarrow>
                      if c_id existing \<noteq> category_id
                      then Inr (db, Some duplicate_category_msg)
                      else Inr (db\<lparr>categories :=
                                     map (\<lambda>c. if c_id c = category_id
                                               then c\<lparr>c_name := n, c_color := color\<rparr> else c)
                                         (categories db)\<rparr>, None)
                  | None \<Rightarrow>
                      Inr (db\<lparr>categories :=
                                map (\<lambda>c. if c_id c = category_id
                                          then c\<lparr>c_name := n, c_color := color\<rparr> else c)
                                    (categories db)\<rparr>, None))))"

definition delete_category :: "int \<Rightarrow> int \<Rightarrow> database \<Rightarrow> outcome" where
  "delete_category uid category_id db =
     (case find (\<lambda>c. c_id c = category_id \<and> c_user_id c = uid) (categories db) of
        None \<Rightarrow> Inl NotFound
      | Some category \<Rightarrow>
          Inr (db\<lparr>tasks := map (\<lambda>t. if t_category_id t = Some category_id
                                    then t\<lparr>t_category_id := None\<rparr> else t) (tasks db),
                  categories := filter (\<lambda>c. c_id c \<noteq> category_id) (categories db)\<rparr>,
               None))"

subsection \<open>\<open>move_task_up\<close> and \<open>move_task_down\<close> (lines 596-632)\<close>

definition move_task_up :: "int \<Rightarrow> int \<Rightarrow> database \<Rightarrow> outcome" where
  "move_task_up uid task_id db =
     (case own_task uid task_id db of
        None \<Rightarrow> Inl NotFound
      | Some task \<Rightarrow>
          (case first_desc t_order_index
                  (filter (\<lambda>t. t_user_id t = uid \<and>
                               sql_lt (t_order_index t) (t_order_index task) \<and>
                               t_is_completed t = t_is_completed task)
                          (tasks db)) of
             None \<Rightarrow> Inr (db, None)
           | Some prev_task \<Rightarrow>
               Inr (upd_task (t_id prev_task)
                      (\<lambda>t. t\<lparr>t_order_index := t_order_index task\<rparr>)
                      (upd_task task_id
                         (\<lambda>t. t\<lparr>t_order_index := t_order_index prev_task\<rparr>) db),
                    None)))"

definition move_task_down :: "int \<Rightarrow> int \<Rightarrow> database \<Rightarrow> outcome" where
  "move_task_down uid task_id db =
     (case own_task uid task_id db of
        None \<Rightarrow> Inl NotFound
      | Some task \<Rightarrow>
          (case first_asc t_order_index
                  (filter (\<lambda>t. t_user_id t = uid \<and>
                               sql_lt (t_order_index task) (t_order_index t) \<and>
                               t_is_completed t = t_is_completed task)
                          (tasks db)) of
             None \<Rightarrow> Inr (db, None)
           | Some next_task \<Rightarrow>
               Inr (upd_task (t_id next_task)
                      (\<lambda>t. t\<lparr>t_order_index := t_order_index task\<rparr>)
                      (upd_task task_id
                         (\<lambda>t. t\<lparr>t_order_index := t_order_index next_task\<rparr>) db),
                    None)))"

subsection \<open>\<open>toggle_dark_mode\<close> (lines 300-305)\<close>

definition toggle_dark_mode :: "int \<Rightarrow> database \<Rightarrow> outcome" where
  "toggle_dark_mode uid db =
     Inr (db\<lparr>users := map (\<lambda>u. if u_id u = uid then u\<lparr>dark_mode := \<not> dark_mode u\<rparr> else u)
                           (users db)\<rparr>, None)"

subsection \<open>\<open>register\<close> (lines 152-222)\<close>

text \<open>
  The POST branch for a visitor who is not logged in. \<open>pwhash\<close> is what
  \<open>generate_password_hash\<close> returns for the password (it is salted, so it is an input
  here); hashing a missing password raises, and a missing user name violates the NOT NULL
  constraint at the first commit. Both commits succeed or none is reached.

  \<open>db.session.add(new_user)\<close> brings the tasks of the user into the session one
  after the other, each followed by its category, and then the categories that no task
  has: the first flush inserts the tasks in the order of the list and the categories in
  the order Health, Work, Learning, Personal.
\<close>

definition sample_categories :: "int \<Rightarrow> int \<Rightarrow> category list" where
  "sample_categories uid c0 =
     [\<lparr>c_id = c0, c_name = ''Health'', c_color = Some ''red'', c_user_id = uid\<rparr>,
      \<lparr>c_id = c0 + 1, c_name = ''Work'', c_color = Some ''blue'', c_user_id = uid\<rparr>,
      \<lparr>c_id = c0 + 2, c_name = ''Learning'', c_color = Some ''purple'', c_user_id = uid\<rparr>,
      \<lparr>c_id = c0 + 3, c_name = ''Personal'', c_color = Some ''green'', c_user_id = uid\<rparr>]"

definition sample_tasks :: "int \<Rightarrow> int \<Rightarrow> int \<Rightarrow> task list" where
  "sample_tasks uid c0 t0 =
     [\<lparr>t_id = t0, t_description = ''Morning workout'', t_estimated_time = 45,
       t_is_completed = False, t_priority = Some ''medium'', t_time_block = Some ''morning'',
       t_order_index = Some 1, t_user_id = uid, t_category_id = Some c0\<rparr>,
      \<lparr>t_id = t0 + 1, t_description = ''Team meeting'', t_estimated_time = 60,
       t_is_completed = False, t_priority = Some ''high'', t_time_block = Some ''morning'',
       t_order_index = Some 2, t_user_id = uid, t_category_id = Some (c0 + 1)\<rparr>,
      \<lparr>t_id = t0 + 2, t_description = ''Work on Project X'', t_estimated_time = 120,
       t_is_completed = True, t_priority = Some ''high'', t_time_block = Some ''afternoon'',
       t_order_index = Some 3, t_user_id = uid, t_category_id = Some (c0 + 1)\<rparr>,
      \<lparr>t_id = t0 + 3, t_description = ''Read documentation'', t_estimated_time = 30,
       t_is_completed = False, t_priority = Some ''low'', t_time_block = Some ''any'',
       t_order_index = Some 4, t_user_id = uid, t_category_id = Some (c0 + 2)\<rparr>]"

definition sample_subtasks :: "int \<Rightarrow> int \<Rightarrow> int \<Rightarrow> subtask list" where
  "sample_subtasks team_meeting project s0 =
     [\<lparr>s_id = s0, s_description = ''Prepare meeting agenda'', s_is_completed = False,
       s_order_index = Some 1, s_task_id = team_meeting\<rparr>,
      \<lparr>s_id = s0 + 1, s_description = ''Send meeting invites'', s_is_completed = True,
       s_order_index = Some 2, s_task_id = team_meeting\<rparr>,
      \<lparr>s_id = s0 + 2, s_description = ''Setup frontend components'', s_is_completed = True,
       s_order_index = Some 1, s_task_id = project\<rparr>]"

definition register ::
  "string option \<Rightarrow> string option \<Rightarrow> string option \<Rightarrow> string \<Rightarrow> database \<Rightarrow> outcome" where
  "register uname password confirm_password pwhash db =
     (if password \<noteq> confirm_password then Inr (db, Some ''Passwords do not match'')
      else if \<exists>u \<in> set (users db). Some (username u) = uname
      then Inr (db, Some ''Username already exists'')
      else
        (case password of
           None \<Rightarrow> Inl AttributeError
         | Some pw \<Rightarrow>
             (case uname of
                None \<Rightarrow> Inl IntegrityError
              | Some name \<Rightarrow>
                  let uid = next_id (map u_id (users db));
                      new_user = \<lparr>u_id = uid, username = name, password_hash = pwhash,
                                  dark_mode = True\<rparr>;
                      c0 = next_id (map c_id (categories db));
                      t0 = next_id (map t_id (tasks db));
                      db1 = db\<lparr>users := users db @ [new_user],
                               categories := categories db @ sample_categories uid c0,
                               tasks := tasks db @ sample_tasks uid c0 t0\<rparr>;
                      team_meeting_task =
                        find (\<lambda>t. t_description t = ''Team meeting'' \<and> t_user_id t = uid)
                             (tasks db1);
                      project_task =
                        find (\<lambda>t. t_description t = ''Work on Project X'' \<and> t_user_id t = uid)
                             (tasks db1)
                  in (case (team_meeting_task, project_task) of
                        (Some tm, Some pt) \<Rightarrow>
                          Inr (db1\<lparr>subtasks := subtasks db1 @
                                     sample_subtasks (t_id tm) (t_id pt)
                                       (next_id (map s_id (subtasks db1)))\<rparr>, None)
                      | _ \<Rightarrow> Inr (db1, None)))))"

section \<open>Requests and reachable states\<close>

text \<open>The routes that write, one constructor per \<open>@app.route\<close> handler.\<close>

datatype request =
    AddTask task_form
  | ToggleTask int
  | AddSubtask int "string option"
  | ToggleSubtask int
  | EditSubtask int "string option"
  | MoveSubtaskUp int
  | MoveSubtaskDown int
  | DeleteSubtask int
  | EditTask int task_form
  | DeleteTask int
  | ResetAllTasks
  | AddCategory "string option" "string option"
  | EditCategory int "string option" "string option"
  | DeleteCategory int
  | MoveTaskUp int
  | MoveTaskDown int
  | ToggleDarkMode

fun handle :: "library \<Rightarrow> int \<Rightarrow> request \<Rightarrow> database \<Rightarrow> outcome" where
  "handle lib uid (AddTask form) db = add_task lib uid form db"
| "handle lib uid (ToggleTask i) db = toggle_task uid i db"
| "handle lib uid (AddSubtask i d) db = add_subtask uid i d db"
| "handle lib uid (ToggleSubtask i) db = toggle_subtask uid i db"
| "handle lib uid (EditSubtask i d) db = edit_subtask uid i d db"
| "handle lib uid (MoveSubtaskUp i) db = move_subtask_up uid i db"
| "handle lib uid (MoveSubtaskDown i) db = move_subtask_down uid i db"
| "handle lib uid (DeleteSubtask i) db = delete_subtask uid i db"
| "handle lib uid (EditTask i form) db = edit_task lib uid i form db"
| "handle lib uid (DeleteTask i) db = delete_task uid i db"
| "handle lib uid ResetAllTasks db = reset_all_tasks uid db"
| "handle lib uid (AddCategory n c) db = add_category uid n c db"
| "handle lib uid (EditCategory i n c) db = edit_category uid i n c db"
| "handle lib uid (DeleteCategory i) db = delete_category uid i db"
| "handle lib uid (MoveTaskUp i) db = move_task_up uid i db"
| "handle lib uid (MoveTaskDown i) db = move_task_down uid i db"
| "handle lib uid ToggleDarkMode db = toggle_dark_mode uid db"

text \<open>
  The states the application can store: the empty database, and whatever a registration
  or a request of a logged-in user (one whose row exists) leaves behind.
\<close>

inductive reachable :: "library \<Rightarrow> database \<Rightarrow> bool" for lib where
  created: "reachable lib empty_db"
| registered:
    "reachable lib db \<Longrightarrow>
     reachable lib (stored_after db (register uname pw confirm pwhash db))"
| handled:
    "reachable lib db \<Longrightarrow> uid \<in> u_id ` set (users db) \<Longrightarrow>
     reachable lib (stored_after db (handle lib uid req db))"

section \<open>Order keys of a scope\<close>

text \<open>
  The order keys present in a scope: of the tasks of a user, of the subtasks of a task.
\<close>

definition task_order_keys :: "int \<Rightarrow> database \<Rightarrow> int list" where
  "task_order_keys uid db =
     List.map_filter t_order_index (filter (\<lambda>t. t_user_id t = uid) (tasks db))"

definition subtask_order_keys :: "int \<Rightarrow> database \<Rightarrow> int list" where
  "subtask_order_keys task_id db =
     List.map_filter s_order_index (filter (\<lambda>s. s_task_id s = task_id) (subtasks db))"

text \<open>
  \<open>AppendNew\<close> as the specification words it: the largest existing order key of the
  scope plus one, or 1 when there is none.
\<close>

definition spec_append_new :: "int list \<Rightarrow> int" where
  "spec_append_new ks = (if ks = [] then 1 else Max (set ks) + 1)"

section \<open>Concrete inputs\<close>

text \<open>
  A library for the examples. On a plain decimal numeral \<open>decimal_text\<close> is what
  INTEGER affinity gives, and the examples hold no character outside ASCII.
\<close>

definition decimal_text :: "string \<Rightarrow> int option" where
  "decimal_text s =
     (if s \<noteq> [] \<and> list_all is_digit s
      then Some (foldl (\<lambda>a c. 10 * a + digit_val c) 0 s) else None)"

definition demo_library :: library where
  "demo_library =
     \<lparr>str_lower = ascii_lower, int_non_ascii = (\<lambda>s. None), text_as_integer = decimal_text\<rparr>"

text \<open>
  The database after the first registration: one user, the four sample categories, the
  four sample tasks and the three sample subtasks.
\<close>

definition demo_db :: database where
  "demo_db =
     \<lparr>users = [\<lparr>u_id = 1, username = ''amina'', password_hash = ''pbkdf2'',
                 dark_mode = True\<rparr>],
      categories = sample_categories 1 1,
      tasks = sample_tasks 1 1 1,
      subtasks = sample_subtasks 2 3 1\<rparr>"

text \<open>The same after a second registration: two users with their sample data.\<close>

definition demo_db2 :: database where
  "demo_db2 =
     \<lparr>users = [\<lparr>u_id = 1, username = ''amina'', password_hash = ''pbkdf2'', dark_mode = True\<rparr>,
               \<lparr>u_id = 2, username = ''bilal'', password_hash = ''scrypt'', dark_mode = True\<rparr>],
      categories = sample_categories 1 1 @ sample_categories 2 5,
      tasks = sample_tasks 1 1 1 @ sample_tasks 2 5 5,
      subtasks = sample_subtasks 2 3 1 @ sample_subtasks 6 7 4\<rparr>"


definition demo_task :: "int \<Rightarrow> int \<Rightarrow> task" where
  "demo_task i k =
     \<lparr>t_id = i, t_description = ''Buy milk'', t_estimated_time = 15, t_is_completed = False,
      t_priority = Some ''low'', t_time_block = Some ''any'', t_order_index = Some k,
      t_user_id = 1, t_category_id = Some 2\<rparr>"

definition demo_subtask :: "int \<Rightarrow> int \<Rightarrow> subtask" where
  "demo_subtask i k =
     \<lparr>s_id = i, s_description = ''Book a room'', s_is_completed = False,
      s_order_index = Some k, s_task_id = 2\<rparr>"

text \<open>
  Tasks for the display sorter: a complete one with order key 1, two incomplete ones that
  differ in order key and description, one without an order key, and one whose order key
  is 1000.
\<close>

definition task_a :: task where
  "task_a = \<lparr>t_id = 1, t_description = ''Archive'', t_estimated_time = 10, t_is_completed = True,
      t_priority = Some ''low'', t_time_block = Some ''any'', t_order_index = Some 1,
      t_user_id = 1, t_category_id = None\<rparr>"

definition task_b :: task where
  "task_b = \<lparr>t_id = 2, t_description = ''Zeta'', t_estimated_time = 10, t_is_completed = False,
      t_priority = Some ''high'', t_time_block = Some ''morning'', t_order_index = Some 2,
      t_user_id = 1, t_category_id = None\<rparr>"

definition task_c :: task where
  "task_c = \<lparr>t_id = 3, t_description = ''Alpha'', t_estimated_time = 10, t_is_completed = False,
      t_priority = Some ''high'', t_time_block = Some ''morning'', t_order_index = Some 3,
      t_user_id = 1, t_category_id = None\<rparr>"

definition task_null :: task where
  "task_null = \<lparr>t_id = 4, t_description = ''Unplaced'', t_estimated_time = 10, t_is_completed = False,
      t_priority = Some ''medium'', t_time_block = Some ''any'', t_order_index = None,
      t_user_id = 1, t_category_id = None\<rparr>"

definition task_late :: task where
  "task_late = \<lparr>t_id = 5, t_description = ''Thousandth'', t_estimated_time = 10, t_is_completed = False,
      t_priority = Some ''medium'', t_time_block = Some ''any'', t_order_index = Some 1000,
      t_user_id = 1, t_category_id = None\<rparr>"


text \<open>
  Two tasks that agree in everything but the description, one written with a capital.
\<close>

definition task_banana :: task where
  "task_banana = \<lparr>t_id = 6, t_description = ''Banana'', t_estimated_time = 10,
      t_is_completed = False, t_priority = Some ''medium'', t_time_block = Some ''any'',
      t_order_index = Some 7, t_user_id = 1, t_category_id = None\<rparr>"

definition task_apple :: task where
  "task_apple = \<lparr>t_id = 7, t_description = ''apple'', t_estimated_time = 10,
      t_is_completed = False, t_priority = Some ''medium'', t_time_block = Some ''any'',
      t_order_index = Some 7, t_user_id = 1, t_category_id = None\<rparr>"

section \<open>Properties of a stored state\<close>

text \<open>
  Two characters that differ at most in case: equal, or a capital A to Z and the small
  letter 32 code points above it.
\<close>

definition same_letter :: "char \<Rightarrow> char \<Rightarrow> bool" where
  "same_letter c d =
     (c = d \<or>
      (CHR ''A'' \<le> c \<and> c \<le> CHR ''Z'' \<and> of_char d = of_char c + (32::nat)) \<or>
      (CHR ''A'' \<le> d \<and> d \<le> CHR ''Z'' \<and> of_char c = of_char d + (32::nat)))"

text \<open>
  What a move does to a table: the row and one neighbour exchange their order keys, or
  there is no neighbour and nothing changes.
\<close>

definition swap_or_noop_tasks :: "task \<Rightarrow> (task \<Rightarrow> bool) \<Rightarrow> database \<Rightarrow> database \<Rightarrow> bool" where
  "swap_or_noop_tasks task neighbour db db' =
     ((\<exists>other \<in> set (tasks db).
         neighbour other \<and> t_id other \<noteq> t_id task \<and>
         db' = db\<lparr>tasks :=
                 map (\<lambda>t. if t_id t = t_id task
                           then t\<lparr>t_order_index := t_order_index other\<rparr>
                           else if t_id t = t_id other
                           then t\<lparr>t_order_index := t_order_index task\<rparr> else t)
                     (tasks db)\<rparr>) \<or>
      (\<not> (\<exists>other \<in> set (tasks db). neighbour other) \<and> db' = db))"

definition swap_or_noop_subtasks ::
  "subtask \<Rightarrow> (subtask \<Rightarrow> bool) \<Rightarrow> database \<Rightarrow> database \<Rightarrow> bool" where
  "swap_or_noop_subtasks subtask neighbour db db' =
     ((\<exists>other \<in> set (subtasks db).
         neighbour other \<and> s_id other \<noteq> s_id subtask \<and>
         db' = db\<lparr>subtasks :=
                 map (\<lambda>s. if s_id s = s_id subtask
                           then s\<lparr>s_order_index := s_order_index other\<rparr>
                           else if s_id s = s_id other
                           then s\<lparr>s_order_index := s_order_index subtask\<rparr> else s)
                     (subtasks db)\<rparr>) \<or>
      (\<not> (\<exists>other \<in> set (subtasks db). neighbour other) \<and> db' = db))"

text \<open>
  Within a scope no two rows share an order key.
\<close>

definition task_keys_unique :: "database \<Rightarrow> bool" where
  "task_keys_unique db =
     (\<forall>a \<in> set (tasks db). \<forall>b \<in> set (tasks db).
        t_user_id a = t_user_id b \<and> t_order_index a = t_order_index b \<and>
        t_order_index a \<noteq> None \<longrightarrow> t_id a = t_id b)"

definition subtask_keys_unique :: "database \<Rightarrow> bool" where
  "subtask_keys_unique db =
     (\<forall>a \<in> set (subtasks db). \<forall>b \<in> set (subtasks db).
        s_task_id a = s_task_id b \<and> s_order_index a = s_order_index b \<and>
        s_order_index a \<noteq> None \<longrightarrow> s_id a = s_id b)"

text \<open>
  Primary keys are distinct and every reference points to a row; a complete task has
  only complete subtasks.
\<close>

definition keys_consistent :: "database \<Rightarrow> bool" where
  "keys_consistent db =
     (distinct (map u_id (users db)) \<and>
      distinct (map t_id (tasks db)) \<and>
      distinct (map s_id (subtasks db)) \<and>
      (\<forall>t \<in> set (tasks db). t_user_id t \<in> u_id ` set (users db)) \<and>
      (\<forall>s \<in> set (subtasks db). s_task_id s \<in> t_id ` set (tasks db)))"

definition flags_consistent :: "database \<Rightarrow> bool" where
  "flags_consistent db =
     (\<forall>t \<in> set (tasks db). t_is_completed t \<longrightarrow>
        (\<forall>s \<in> set (subtasks db). s_task_id s = t_id t \<longrightarrow> s_is_completed s))"

definition db_invariant :: "database \<Rightarrow> bool" where
  "db_invariant db =
     (keys_consistent db \<and> task_keys_unique db \<and> subtask_keys_unique db \<and>
      flags_consistent db)"

section \<open>Facts about the queries\<close>

lemma find_SomeD: "find P xs = Some x \<Longrightarrow> x \<in> set xs \<and> P x"
  by (induction xs) (auto split: if_splits)

lemma own_subtaskD:
  "own_subtask uid i db = Some st \<Longrightarrow>
   st \<in> set (subtasks db) \<and> s_id st = i \<and>
   (\<exists>t \<in> set (tasks db). t_id t = s_task_id st \<and> t_user_id t = uid)"
  unfolding own_subtask_def by (drule find_SomeD) simp

lemma own_taskD:
  "own_task uid i db = Some t \<Longrightarrow> t \<in> set (tasks db) \<and> t_id t = i \<and> t_user_id t = uid"
  unfolding own_task_def by (drule find_SomeD) simp

lemma length_filter_conj:
  "(length (filter P xs) = length (filter (\<lambda>x. P x \<and> Q x) xs)) =
   (\<forall>x \<in> set xs. P x \<longrightarrow> Q x)"
proof (induction xs)
  case Nil
  show ?case by simp
next
  case (Cons a xs)
  have "length (filter (\<lambda>x. P x \<and> Q x) xs) \<le> length (filter P xs)"
    using length_filter_le[of Q "filter P xs"] by (simp add: conj_commute)
  with Cons show ?case by auto
qed

text \<open>The two counts agree exactly when every subtask of the task is complete.\<close>

lemma counts_equal_iff:
  "(subtask_count db i = completed_subtask_count db i) =
   (\<forall>s \<in> set (subtasks db). s_task_id s = i \<longrightarrow> s_is_completed s)"
  unfolding subtask_count_def completed_subtask_count_def task_subtasks_def
  by (simp add: length_filter_conj)

lemma flag_branches:
  "(if c then upd_task i (\<lambda>t. t\<lparr>t_is_completed := True\<rparr>) d
    else upd_task i (\<lambda>t. t\<lparr>t_is_completed := False\<rparr>) d) =
   upd_task i (\<lambda>t. t\<lparr>t_is_completed := c\<rparr>) d"
  by simp

lemma upd_subtask_fields [simp]:
  "users (upd_subtask i f db) = users db"
  "categories (upd_subtask i f db) = categories db"
  "tasks (upd_subtask i f db) = tasks db"
  "subtasks (upd_subtask i f db) = map (\<lambda>s. if s_id s = i then f s else s) (subtasks db)"
  by (simp_all add: upd_subtask_def)

lemma upd_task_fields [simp]:
  "users (upd_task i f db) = users db"
  "categories (upd_task i f db) = categories db"
  "subtasks (upd_task i f db) = subtasks db"
  "tasks (upd_task i f db) = map (\<lambda>t. if t_id t = i then f t else t) (tasks db)"
  by (simp_all add: upd_task_def)

lemma database_eqI:
  "users a = users b \<Longrightarrow> categories a = categories b \<Longrightarrow> tasks a = tasks b \<Longrightarrow>
   subtasks a = subtasks b \<Longrightarrow> a = (b::database)"
  by simp

text \<open>A loop that assigns the same value to each object of a query result.\<close>

lemma fold_upd_subtask:
  assumes idem: "\<And>s. f (f s) = f s" and keep: "\<And>s. s_id (f s) = s_id s"
  shows "fold (\<lambda>x. upd_subtask (s_id x) f) xs db =
         db\<lparr>subtasks := map (\<lambda>s. if s_id s \<in> s_id ` set xs then f s else s) (subtasks db)\<rparr>"
proof (induction xs arbitrary: db)
  case Nil
  show ?case by simp
next
  case (Cons a xs)
  show ?case
    apply (simp add: Cons.IH)
    apply (rule database_eqI)
       apply (simp_all add: idem keep)
    done
qed

lemma distinct_map_eq: "distinct (map f xs) \<Longrightarrow> x \<in> set xs \<Longrightarrow> y \<in> set xs \<Longrightarrow> f x = f y \<Longrightarrow> x = y"
  by (meson distinct_map inj_onD)

lemma ids_of_filter:
  assumes "distinct (map f xs)" "x \<in> set xs"
  shows "(f x \<in> f ` {y \<in> set xs. P y}) = P x"
  using assms distinct_map_eq[OF assms(1)] by auto


lemma queries_upd_task [simp]:
  "task_subtasks (upd_task i f db) j = task_subtasks db j"
  "subtask_count (upd_task i f db) j = subtask_count db j"
  "completed_subtask_count (upd_task i f db) j = completed_subtask_count db j"
  "has_subtasks (upd_task i f db) j = has_subtasks db j"
  by (simp_all add: task_subtasks_def subtask_count_def completed_subtask_count_def
      has_subtasks_def)

lemma fold_set_flag:
  "fold (\<lambda>x. upd_subtask (s_id x) (\<lambda>s. s\<lparr>s_is_completed := v\<rparr>)) xs db =
   db\<lparr>subtasks := map (\<lambda>s. if s_id s \<in> s_id ` set xs then s\<lparr>s_is_completed := v\<rparr> else s)
                       (subtasks db)\<rparr>"
  by (rule fold_upd_subtask) simp_all

lemma map_cong_set: "(\<And>x. x \<in> set xs \<Longrightarrow> f x = g x) \<Longrightarrow> map f xs = map g xs"
  by simp

lemma find_map_stable:
  assumes "\<And>x. P (g x) = P x"
  shows "find P (map g xs) = map_option g (find P xs)"
  using assms by (induction xs) auto

lemma own_task_upd_task:
  assumes "\<And>t. t_id (f t) = t_id t" "\<And>t. t_user_id (f t) = t_user_id t"
    and "own_task uid i db = Some task"
  shows "own_task uid i (upd_task i f db) = Some (f task)"
proof -
  have "find (\<lambda>t. t_id t = i \<and> t_user_id t = uid) (map (\<lambda>t. if t_id t = i then f t else t) (tasks db))
        = map_option (\<lambda>t. if t_id t = i then f t else t) (find (\<lambda>t. t_id t = i \<and> t_user_id t = uid) (tasks db))"
    by (rule find_map_stable) (simp add: assms(1,2))
  then show ?thesis using assms(3) own_taskD[OF assms(3)] by (simp add: own_task_def)
qed

text \<open>What the two nested loops of \<open>reset_all_tasks\<close> compute.\<close>

lemma reset_task_eq:
  "reset_task task db =
   db\<lparr>tasks := map (\<lambda>t. if t_id t = t_id task then t\<lparr>t_is_completed := False\<rparr> else t) (tasks db),
      subtasks := map (\<lambda>s. if s_id s \<in> s_id ` {x \<in> set (subtasks db). s_task_id x = t_id task}
                            then s\<lparr>s_is_completed := False\<rparr> else s) (subtasks db)\<rparr>"
  unfolding reset_task_def Let_def fold_set_flag
  by (rule database_eqI) (simp_all add: task_subtasks_def)

lemma ids_after_map:
  assumes "\<And>x. k (g x) = k x" "\<And>x. Q (g x) = Q x"
  shows "k ` {x \<in> set (map g xs). Q x} = k ` {x \<in> set xs. Q x}"
proof -
  have "{x \<in> set (map g xs). Q x} = g ` {x \<in> set xs. Q x}"
    using assms(2) by auto
  then show ?thesis by (simp add: image_image assms(1))
qed

lemma fold_reset_task:
  "fold reset_task ts db =
   db\<lparr>tasks := map (\<lambda>t. if t_id t \<in> t_id ` set ts then t\<lparr>t_is_completed := False\<rparr> else t)
                    (tasks db),
      subtasks := map (\<lambda>s. if s_id s \<in> s_id ` {x \<in> set (subtasks db). s_task_id x \<in> t_id ` set ts}
                            then s\<lparr>s_is_completed := False\<rparr> else s) (subtasks db)\<rparr>"
proof (induction ts arbitrary: db)
  case Nil
  show ?case by simp
next
  case (Cons a ts)
  let ?d = "reset_task a db"
  have ids': "s_id ` {x \<in> set (subtasks ?d). s_task_id x \<in> t_id ` set ts} =
              s_id ` {x \<in> set (subtasks db). s_task_id x \<in> t_id ` set ts}"
    unfolding reset_task_eq by (simp del: set_map, rule ids_after_map) simp_all
  have "fold reset_task (a # ts) db = fold reset_task ts ?d" by simp
  also have "\<dots> = ?d\<lparr>tasks := map (\<lambda>t. if t_id t \<in> t_id ` set ts then t\<lparr>t_is_completed := False\<rparr> else t)
                    (tasks ?d),
      subtasks := map (\<lambda>s. if s_id s \<in> s_id ` {x \<in> set (subtasks db). s_task_id x \<in> t_id ` set ts}
                            then s\<lparr>s_is_completed := False\<rparr> else s) (subtasks ?d)\<rparr>"
    unfolding Cons.IH ids' ..
  also have "\<dots> = db\<lparr>tasks := map (\<lambda>t. if t_id t \<in> t_id ` set (a # ts) then t\<lparr>t_is_completed := False\<rparr> else t)
                    (tasks db),
      subtasks := map (\<lambda>s. if s_id s \<in> s_id ` {x \<in> set (subtasks db). s_task_id x \<in> t_id ` set (a # ts)}
                            then s\<lparr>s_is_completed := False\<rparr> else s) (subtasks db)\<rparr>"
    apply (rule database_eqI)
       apply (simp add: reset_task_eq)
      apply (simp add: reset_task_eq)
     apply (simp add: reset_task_eq) 
    apply (simp add: reset_task_eq)
    apply (auto simp: image_iff)
    done
  finally show ?case .
qed


section \<open>Facts about order keys\<close>

lemma sql_max_eq: "sql_max ks = (if ks = [] then None else Some (Max (set ks)))"
proof (cases ks)
  case Nil
  then show ?thesis by (simp add: sql_max_def)
next
  case (Cons k ks')
  then show ?thesis using Max.set_eq_fold[of k ks'] by (simp add: sql_max_def)
qed

lemma map_filter_map_id: "List.map_filter (\<lambda>k. k) (map f xs) = List.map_filter f xs"
  by (induction xs) (simp_all add: List.map_filter_simps split: option.splits)

lemma highest_order_plus_one:
  "or_zero (sql_max_col (map f xs)) + 1 = spec_append_new (List.map_filter f xs)"
  by (simp add: sql_max_col_def map_filter_map_id sql_max_eq or_zero_def spec_append_new_def)



lemma first_desc_None [simp]: "(first_desc k xs = None) = (xs = [])"
  by (cases xs) (auto split: option.splits)

lemma first_asc_None [simp]: "(first_asc k xs = None) = (xs = [])"
  by (cases xs) (auto split: option.splits)

lemma first_desc_Some:
  "first_desc k xs = Some y \<Longrightarrow> y \<in> set xs \<and> (\<forall>x \<in> set xs. k x \<le> k y)"
proof (induction xs arbitrary: y)
  case Nil
  then show ?case by simp
next
  case (Cons a xs)
  show ?case
  proof (cases "first_desc k xs")
    case None
    then show ?thesis using Cons.prems by simp
  next
    case (Some z)
    from Cons.IH[OF Some] have z: "z \<in> set xs" "\<forall>x \<in> set xs. k x \<le> k z" by simp_all
    show ?thesis using Cons.prems Some z by (auto split: if_splits)
  qed
qed

lemma first_asc_Some:
  "first_asc k xs = Some y \<Longrightarrow> y \<in> set xs \<and> (\<forall>x \<in> set xs. k y \<le> k x)"
proof (induction xs arbitrary: y)
  case Nil
  then show ?case by simp
next
  case (Cons a xs)
  show ?case
  proof (cases "first_asc k xs")
    case None
    then show ?thesis using Cons.prems by simp
  next
    case (Some z)
    from Cons.IH[OF Some] have z: "z \<in> set xs" "\<forall>x \<in> set xs. k z \<le> k x" by simp_all
    show ?thesis using Cons.prems Some z by (auto split: if_splits)
  qed
qed

lemma first_asc_unique:
  assumes "y \<in> set xs" "\<forall>z \<in> set xs. z \<noteq> y \<longrightarrow> k y < k z"
  shows "first_asc k xs = Some y"
proof -
  from assms(1) have "xs \<noteq> []" by auto
  then obtain w where w: "first_asc k xs = Some w"
    by (cases "first_asc k xs") simp_all
  from first_asc_Some[OF w] have "w \<in> set xs" "k w \<le> k y" using assms(1) by auto
  with assms(2) have "w = y" by force
  with w show ?thesis by simp
qed

lemma sql_lt_iff: "sql_lt a b = (a \<noteq> None \<and> a < b)"
  by (cases a; cases b) (simp_all add: sql_lt_def)


lemma two_updates:
  assumes "\<And>t. idf (f t) = idf t" "i \<noteq> j"
  shows "map (\<lambda>t. if idf t = j then g t else t) (map (\<lambda>t. if idf t = i then f t else t) xs) =
         map (\<lambda>t. if idf t = i then f t else if idf t = j then g t else t) xs"
  using assms by (induction xs) auto

lemma same_id_same_row:
  "distinct (map idf xs) \<Longrightarrow> a \<in> set xs \<Longrightarrow> b \<in> set xs \<Longrightarrow> idf a = idf b \<Longrightarrow> a = b"
  by (rule distinct_map_eq)

lemma up_then_down:
  fixes xs :: "'a list" and idf :: "'a \<Rightarrow> int" and key :: "'a \<Rightarrow> int option"
    and setk :: "int option \<Rightarrow> 'a \<Rightarrow> 'a" and S c :: "'a \<Rightarrow> bool"
  assumes ids: "distinct (map idf xs)"
    and uniq: "\<forall>a\<in>set xs. \<forall>b\<in>set xs.
                 S a \<and> S b \<and> key a = key b \<and> key a \<noteq> None \<longrightarrow> idf a = idf b"
    and x: "x \<in> set xs" "S x"
    and key_set: "\<And>k t. key (setk k t) = k"
    and id_set: "\<And>k t. idf (setk k t) = idf t"
    and S_set: "\<And>k t. S (setk k t) = S t"
    and c_set: "\<And>k t. c (setk k t) = c t"
    and set_back: "\<And>k t. setk (key t) (setk k t) = t"
    and p: "first_desc key (filter (\<lambda>t. S t \<and> sql_lt (key t) (key x) \<and> c t = c x) xs) = Some p"
  defines "sw \<equiv> \<lambda>t. if idf t = idf x then setk (key p) t
                     else if idf t = idf p then setk (key x) t else t"
  shows "first_asc key (filter (\<lambda>t. S t \<and> sql_lt (key p) (key t) \<and> c t = c x) (map sw xs)) =
         Some (setk (key x) p)"
    and "map (\<lambda>t. if idf t = idf x then setk (key x) t
                  else if idf t = idf p then setk (key p) t else t) (map sw xs) = xs"
    and "idf p \<noteq> idf x"
proof -
  from first_desc_Some[OF p]
  have pin: "p \<in> set xs" "S p" "sql_lt (key p) (key x)" "c p = c x"
    and pmax: "\<forall>t \<in> set xs. S t \<and> sql_lt (key t) (key x) \<and> c t = c x \<longrightarrow> key t \<le> key p"
    by auto
  from pin(3) have kpx: "key p \<noteq> None" "key p < key x" by (simp_all add: sql_lt_iff)
  then have kx: "key x \<noteq> None" by (cases "key x") auto
  show ne: "idf p \<noteq> idf x"
  proof
    assume "idf p = idf x"
    with ids pin(1) x(1) have "p = x" by (rule same_id_same_row)
    with kpx(2) show False by simp
  qed
  have row: "t = x" if "t \<in> set xs" "idf t = idf x" for t
    using ids that(1) x(1) that(2) by (rule same_id_same_row)
  have row': "t = p" if "t \<in> set xs" "idf t = idf p" for t
    using ids that(1) pin(1) that(2) by (rule same_id_same_row)
  have swx: "sw x = setk (key p) x" by (simp add: sw_def)
  have swp: "sw p = setk (key x) p" using ne by (simp add: sw_def)
  have swt: "sw t = t" if "t \<in> set xs" "t \<noteq> x" "t \<noteq> p" for t
    using that row row' by (auto simp: sw_def)
  let ?cand = "filter (\<lambda>t. S t \<and> sql_lt (key p) (key t) \<and> c t = c x) (map sw xs)"
  have mem: "setk (key x) p \<in> set ?cand"
    using pin kpx swp by (auto simp: key_set S_set c_set sql_lt_iff image_iff intro!: bexI[of _ p])
  have least: "key (setk (key x) p) < key z" if z: "z \<in> set ?cand" "z \<noteq> setk (key x) p" for z
  proof -
    from z(1) obtain t where t: "t \<in> set xs" "z = sw t" "S z" "sql_lt (key p) (key z)" "c z = c x"
      by auto
    have "t \<noteq> x" using t(2,4) swx by (auto simp: key_set sql_lt_iff)
    moreover have "t \<noteq> p" using t(2) z(2) swp by auto
    ultimately have zt: "z = t" using t(1,2) swt by simp
    have "key x < key t"
    proof (rule ccontr)
      assume "\<not> key x < key t"
      then have "key t < key x \<or> key t = key x" by auto
      then show False
      proof
        assume lt: "key t < key x"
        from t(4) zt have "key p < key t" by (simp add: sql_lt_iff)
        then have "key t \<noteq> None" by (cases "key t") auto
        with lt t zt pmax have "key t \<le> key p" by (auto simp: sql_lt_iff)
        with \<open>key p < key t\<close> show False by simp
      next
        assume eq: "key t = key x"
        with uniq t(1,3) zt x kx have "idf t = idf x" by metis
        with row[OF t(1)] \<open>t \<noteq> x\<close> show False by simp
      qed
    qed
    then show ?thesis by (simp add: key_set zt)
  qed
  show "first_asc key ?cand = Some (setk (key x) p)"
    by (rule first_asc_unique[OF mem]) (use least in blast)
  show "map (\<lambda>t. if idf t = idf x then setk (key x) t
                  else if idf t = idf p then setk (key p) t else t) (map sw xs) = xs"
  proof -
    have "(if idf (sw t) = idf x then setk (key x) (sw t)
           else if idf (sw t) = idf p then setk (key p) (sw t) else sw t) = t"
      if "t \<in> set xs" for t
    proof -
      consider "t = x" | "t = p" | "t \<noteq> x" "t \<noteq> p" by blast
      then show ?thesis
      proof cases
        case 1
        then show ?thesis using swx by (simp add: id_set set_back)
      next
        case 2
        then show ?thesis using swp ne by (simp add: id_set set_back)
      next
        case 3
        then show ?thesis using swt[OF that] row[OF that] row'[OF that] by auto
      qed
    qed
    then show ?thesis by (simp add: map_idI)
  qed
qed


lemma task_round_trip:
  assumes ids: "distinct (map t_id (tasks db))"
    and uniq: "task_keys_unique db"
    and task: "own_task uid task_id db = Some task"
    and nb: "\<exists>p \<in> set (tasks db). t_user_id p = uid \<and> t_is_completed p = t_is_completed task \<and>
                sql_lt (t_order_index p) (t_order_index task)"
  shows "\<exists>db1 (p::task). move_task_up uid task_id db = Inr (db1, None) \<and>
               own_task uid task_id db1 = Some (task\<lparr>t_order_index := t_order_index p\<rparr>) \<and>
               sql_lt (t_order_index p) (t_order_index task) \<and>
               move_task_down uid task_id db1 = Inr (db, None)"
proof -
  note D = own_taskD[OF task]
  let ?S = "\<lambda>t::task. t_user_id t = uid"
  let ?setk = "\<lambda>k (t::task). t\<lparr>t_order_index := k\<rparr>"
  let ?cand = "filter (\<lambda>t. ?S t \<and> sql_lt (t_order_index t) (t_order_index task) \<and>
                          t_is_completed t = t_is_completed task) (tasks db)"
  from nb have "?cand \<noteq> []" by (auto simp: filter_empty_conv)
  then obtain p where p: "first_desc t_order_index ?cand = Some p"
    by (cases "first_desc t_order_index ?cand") simp_all
  have uniq': "\<forall>a\<in>set (tasks db). \<forall>b\<in>set (tasks db).
                 ?S a \<and> ?S b \<and> t_order_index a = t_order_index b \<and> t_order_index a \<noteq> None
                 \<longrightarrow> t_id a = t_id b"
  proof (intro ballI impI)
    fix a b
    assume a: "a \<in> set (tasks db)" and b: "b \<in> set (tasks db)"
      and h: "?S a \<and> ?S b \<and> t_order_index a = t_order_index b \<and> t_order_index a \<noteq> None"
    from h have 1: "t_user_id a = t_user_id b" by simp
    from h have 2: "t_order_index a = t_order_index b" by (elim conjE)
    from h have 3: "t_order_index a \<noteq> None" by (elim conjE)
    show "t_id a = t_id b"
      by (rule uniq[unfolded task_keys_unique_def, rule_format, OF a b conjI[OF 1 conjI[OF 2 3]]])
  qed
  define sw where "sw = (\<lambda>t::task. if t_id t = t_id task then ?setk (t_order_index p) t
                     else if t_id t = t_id p then ?setk (t_order_index task) t else t)"
  note G = up_then_down[where idf = t_id and key = t_order_index and setk = ?setk
      and S = ?S and c = t_is_completed and xs = "tasks db" and x = task and p = p,
      OF ids uniq' _ _ _ _ _ _ _ p, folded sw_def]
  have G1: "first_asc t_order_index
              (filter (\<lambda>t. ?S t \<and> sql_lt (t_order_index p) (t_order_index t) \<and>
                           t_is_completed t = t_is_completed task) (map sw (tasks db))) =
            Some (?setk (t_order_index task) p)"
    by (rule G(1)) (use D in simp_all)
  have G2: "map (\<lambda>t. if t_id t = t_id task then ?setk (t_order_index task) t
                  else if t_id t = t_id p then ?setk (t_order_index p) t else t)
              (map sw (tasks db)) = tasks db"
    by (rule G(2)) (use D in simp_all)
  have ne: "t_id p \<noteq> t_id task"
    by (rule G(3)) (use D in simp_all)
  have tid: "t_id task = task_id" using D by simp
  define db1 where "db1 = db\<lparr>tasks := map sw (tasks db)\<rparr>"
  have up: "move_task_up uid task_id db = Inr (db1, None)"
    using task p ne two_updates[of t_id "?setk (t_order_index p)" task_id "t_id p"
        "?setk (t_order_index task)" "tasks db"]
    by (simp add: move_task_up_def upd_task_def db1_def sw_def tid)
  have "find (\<lambda>t. t_id t = task_id \<and> t_user_id t = uid) (map sw (tasks db)) =
        map_option sw (find (\<lambda>t. t_id t = task_id \<and> t_user_id t = uid) (tasks db))"
    by (rule find_map_stable) (simp add: sw_def)
  then have own1: "own_task uid task_id db1 = Some (?setk (t_order_index p) task)"
    using task by (simp add: own_task_def db1_def sw_def tid)
  have restore: "db1\<lparr>tasks := map (\<lambda>t. if t_id t = t_id task then ?setk (t_order_index task) t
                  else if t_id t = t_id p then ?setk (t_order_index p) t else t)
              (tasks db1)\<rparr> = db"
    by (simp add: db1_def G2 del: map_map)
  have down: "move_task_down uid task_id db1 = Inr (db, None)"
    using own1 G1 ne restore two_updates[of t_id "?setk (t_order_index task)" task_id "t_id p"
        "?setk (t_order_index p)" "tasks db1"]
    by (simp add: move_task_down_def upd_task_def db1_def tid del: map_map)
  from first_desc_Some[OF p] have lt: "sql_lt (t_order_index p) (t_order_index task)" by simp
  show ?thesis
    by (rule exI[of _ db1], rule exI[of _ p]) (simp add: up own1 lt down)
qed


lemma subtask_round_trip:
  assumes ids: "distinct (map s_id (subtasks db))"
    and uniq: "subtask_keys_unique db"
    and subtask: "own_subtask uid subtask_id db = Some subtask"
    and nb: "\<exists>p \<in> set (subtasks db). s_task_id p = s_task_id subtask \<and>
                s_is_completed p = s_is_completed subtask \<and>
                sql_lt (s_order_index p) (s_order_index subtask)"
  shows "\<exists>db1 (p::subtask). move_subtask_up uid subtask_id db = Inr (db1, None) \<and>
               own_subtask uid subtask_id db1 =
                 Some (subtask\<lparr>s_order_index := s_order_index p\<rparr>) \<and>
               sql_lt (s_order_index p) (s_order_index subtask) \<and>
               move_subtask_down uid subtask_id db1 = Inr (db, None)"
proof -
  note D = own_subtaskD[OF subtask]
  let ?S = "\<lambda>s::subtask. s_task_id s = s_task_id subtask"
  let ?setk = "\<lambda>k (s::subtask). s\<lparr>s_order_index := k\<rparr>"
  let ?cand = "filter (\<lambda>s. ?S s \<and> sql_lt (s_order_index s) (s_order_index subtask) \<and>
                          s_is_completed s = s_is_completed subtask) (subtasks db)"
  from nb have "?cand \<noteq> []" by (auto simp: filter_empty_conv)
  then obtain p where p: "first_desc s_order_index ?cand = Some p"
    by (cases "first_desc s_order_index ?cand") simp_all
  have uniq': "\<forall>a\<in>set (subtasks db). \<forall>b\<in>set (subtasks db).
                 ?S a \<and> ?S b \<and> s_order_index a = s_order_index b \<and> s_order_index a \<noteq> None
                 \<longrightarrow> s_id a = s_id b"
  proof (intro ballI impI)
    fix a b
    assume a: "a \<in> set (subtasks db)" and b: "b \<in> set (subtasks db)"
      and h: "?S a \<and> ?S b \<and> s_order_index a = s_order_index b \<and> s_order_index a \<noteq> None"
    from h have 1: "s_task_id a = s_task_id b" by simp
    from h have 2: "s_order_index a = s_order_index b" by (elim conjE)
    from h have 3: "s_order_index a \<noteq> None" by (elim conjE)
    show "s_id a = s_id b"
      by (rule uniq[unfolded subtask_keys_unique_def, rule_format, OF a b conjI[OF 1 conjI[OF 2 3]]])
  qed
  define sw where "sw = (\<lambda>s::subtask. if s_id s = s_id subtask then ?setk (s_order_index p) s
                     else if s_id s = s_id p then ?setk (s_order_index subtask) s else s)"
  note G = up_then_down[where idf = s_id and key = s_order_index and setk = ?setk
      and S = ?S and c = s_is_completed and xs = "subtasks db" and x = subtask and p = p,
      OF ids uniq' _ _ _ _ _ _ _ p, folded sw_def]
  have G1: "first_asc s_order_index
              (filter (\<lambda>s. ?S s \<and> sql_lt (s_order_index p) (s_order_index s) \<and>
                           s_is_completed s = s_is_completed subtask) (map sw (subtasks db))) =
            Some (?setk (s_order_index subtask) p)"
    by (rule G(1)) (use D in simp_all)
  have G2: "map (\<lambda>s. if s_id s = s_id subtask then ?setk (s_order_index subtask) s
                  else if s_id s = s_id p then ?setk (s_order_index p) s else s)
              (map sw (subtasks db)) = subtasks db"
    by (rule G(2)) (use D in simp_all)
  have ne: "s_id p \<noteq> s_id subtask"
    by (rule G(3)) (use D in simp_all)
  have sid: "s_id subtask = subtask_id" using D by simp
  define db1 where "db1 = db\<lparr>subtasks := map sw (subtasks db)\<rparr>"
  have up: "move_subtask_up uid subtask_id db = Inr (db1, None)"
    using subtask p ne two_updates[of s_id "?setk (s_order_index p)" subtask_id "s_id p"
        "?setk (s_order_index subtask)" "subtasks db"]
    by (simp add: move_subtask_up_def upd_subtask_def db1_def sw_def sid)
  let ?P = "\<lambda>s. s_id s = subtask_id \<and>
                (\<exists>t \<in> set (tasks db). t_id t = s_task_id s \<and> t_user_id t = uid)"
  have "find ?P (map sw (subtasks db)) = map_option sw (find ?P (subtasks db))"
    by (rule find_map_stable) (simp add: sw_def)
  then have own1: "own_subtask uid subtask_id db1 = Some (?setk (s_order_index p) subtask)"
    using subtask by (simp add: own_subtask_def db1_def sw_def sid)
  have restore: "db1\<lparr>subtasks := map (\<lambda>s. if s_id s = s_id subtask
                                          then ?setk (s_order_index subtask) s
                                          else if s_id s = s_id p
                                          then ?setk (s_order_index p) s else s)
              (subtasks db1)\<rparr> = db"
    by (simp add: db1_def G2 del: map_map)
  have down: "move_subtask_down uid subtask_id db1 = Inr (db, None)"
    using own1 G1 ne restore two_updates[of s_id "?setk (s_order_index subtask)" subtask_id
        "s_id p" "?setk (s_order_index p)" "subtasks db1"]
    by (simp add: move_subtask_down_def upd_subtask_def db1_def sid del: map_map)
  from first_desc_Some[OF p] have lt: "sql_lt (s_order_index p) (s_order_index subtask)"
    by simp
  show ?thesis
    by (rule exI[of _ db1], rule exI[of _ p]) (simp add: up own1 lt down)
qed

lemma swap_keeps_key_set:
  fixes xs :: "'a list" and idf :: "'a \<Rightarrow> int" and key :: "'a \<Rightarrow> 'k"
    and setk :: "'k \<Rightarrow> 'a \<Rightarrow> 'a" and S :: "'a \<Rightarrow> bool"
  assumes ids: "distinct (map idf xs)"
    and x: "x \<in> set xs" "S x" and p: "p \<in> set xs" "S p"
    and key_set: "\<And>k t. key (setk k t) = k"
    and S_set: "\<And>k t. S (setk k t) = S t"
  defines "sw \<equiv> \<lambda>t. if idf t = idf x then setk (key p) t
                     else if idf t = idf p then setk (key x) t else t"
  shows "key ` {t \<in> set (map sw xs). S t} = key ` {t \<in> set xs. S t}"
proof -
  have row: "t = x" if "t \<in> set xs" "idf t = idf x" for t
    using ids that(1) x(1) that(2) by (rule same_id_same_row)
  have row': "t = p" if "t \<in> set xs" "idf t = idf p" for t
    using ids that(1) p(1) that(2) by (rule same_id_same_row)
  have S_sw: "S (sw t) = S t" for t by (simp add: sw_def S_set)
  have "{t \<in> set (map sw xs). S t} = sw ` {t \<in> set xs. S t}"
    using S_sw by auto
  then have eq: "key ` {t \<in> set (map sw xs). S t} = (\<lambda>t. key (sw t)) ` {t \<in> set xs. S t}"
    by (simp add: image_image)
  show ?thesis unfolding eq
  proof (intro equalityI subsetI)
    fix k assume "k \<in> (\<lambda>t. key (sw t)) ` {t \<in> set xs. S t}"
    then obtain t where t: "t \<in> set xs" "S t" "k = key (sw t)" by auto
    have "key (sw t) = key p \<or> key (sw t) = key x \<or> key (sw t) = key t"
      by (simp add: sw_def key_set)
    then show "k \<in> key ` {t \<in> set xs. S t}"
      using t x p by auto
  next
    fix k assume "k \<in> key ` {t \<in> set xs. S t}"
    then obtain t where t: "t \<in> set xs" "S t" "k = key t" by auto
    consider "t = x" | "t = p" "t \<noteq> x" | "t \<noteq> x" "t \<noteq> p" by blast
    then show "k \<in> (\<lambda>t. key (sw t)) ` {t \<in> set xs. S t}"
    proof cases
      case 1
      show ?thesis
      proof (cases "idf p = idf x")
        case True
        then have "key (sw x) = key x" using row[OF p(1)] by (simp add: sw_def key_set)
        then show ?thesis using 1 t x by (auto simp: image_iff intro!: bexI[of _ x])
      next
        case False
        then have "key (sw p) = key x" by (simp add: sw_def key_set)
        then show ?thesis using 1 t p by (auto simp: image_iff intro!: bexI[of _ p])
      qed
    next
      case 2
      have "key (sw x) = key p" by (simp add: sw_def key_set)
      then show ?thesis using 2 t x by (auto simp: image_iff intro!: bexI[of _ x])
    next
      case 3
      then have "sw t = t" using row[OF t(1)] row'[OF t(1)] by (auto simp: sw_def)
      then show ?thesis using t by (auto simp: image_iff intro!: bexI[of _ t])
    qed
  qed
qed

text \<open>What each of the four moves returns for a row of the user.\<close>

lemma move_task_up_swap:
  assumes ids: "distinct (map t_id (tasks db))"
    and task: "own_task uid task_id db = Some task"
  shows "\<exists>db'. move_task_up uid task_id db = Inr (db', None) \<and>
           swap_or_noop_tasks task
             (\<lambda>other. t_user_id other = uid \<and> t_is_completed other = t_is_completed task \<and>
                       sql_lt (t_order_index other) (t_order_index task)) db db' \<and>
           t_order_index ` {t \<in> set (tasks db'). t_user_id t = uid} =
           t_order_index ` {t \<in> set (tasks db). t_user_id t = uid}"
proof -
  note D = own_taskD[OF task]
  have tid: "t_id task = task_id" using D by simp
  let ?setk = "\<lambda>k (t::task). t\<lparr>t_order_index := k\<rparr>"
  let ?cand = "filter (\<lambda>other. t_user_id other = uid \<and>
                          sql_lt (t_order_index other) (t_order_index task) \<and>
                          t_is_completed other = t_is_completed task) (tasks db)"
  show ?thesis
  proof (cases "first_desc t_order_index ?cand")
    case None
    then have "?cand = []" by simp
    then have none: "\<not> (\<exists>other \<in> set (tasks db).
                   t_user_id other = uid \<and> t_is_completed other = t_is_completed task \<and>
                   sql_lt (t_order_index other) (t_order_index task))"
      by (auto simp: filter_empty_conv)
    have run: "move_task_up uid task_id db = Inr (db, None)"
      using task None by (simp add: move_task_up_def)
    have "swap_or_noop_tasks task
             (\<lambda>other. t_user_id other = uid \<and> t_is_completed other = t_is_completed task \<and>
                       sql_lt (t_order_index other) (t_order_index task)) db db"
      unfolding swap_or_noop_tasks_def using none by simp
    with run show ?thesis by blast
  next
    case (Some p)
    from first_desc_Some[OF Some]
    have pin: "p \<in> set (tasks db)" "t_user_id p = uid" "sql_lt (t_order_index p) (t_order_index task)"
      "t_is_completed p = t_is_completed task" by auto
    have ne: "t_id p \<noteq> task_id"
    proof
      assume "t_id p = task_id"
      then have "t_id p = t_id task" using D by simp
      with ids pin(1) D have "p = task" by (intro same_id_same_row[of t_id "tasks db"]) simp_all
      with pin(3) show False by (simp add: sql_lt_iff)
    qed
    define db' where "db' = db\<lparr>tasks :=
                        map (\<lambda>t. if t_id t = t_id task
                                  then t\<lparr>t_order_index := t_order_index p\<rparr>
                                  else if t_id t = t_id p
                                  then t\<lparr>t_order_index := t_order_index task\<rparr> else t)
                            (tasks db)\<rparr>"
    have run: "move_task_up uid task_id db = Inr (db', None)"
      using task Some ne two_updates[of t_id "?setk (t_order_index p)" task_id "t_id p"
          "?setk (t_order_index task)" "tasks db"]
      by (simp add: move_task_up_def upd_task_def db'_def tid del: map_map)
    have keys: "t_order_index ` {t \<in> set (tasks db'). t_user_id t = uid} =
                t_order_index ` {t \<in> set (tasks db). t_user_id t = uid}"
      using swap_keeps_key_set[where idf = t_id and key = t_order_index and setk = ?setk
          and S = "\<lambda>t. t_user_id t = uid" and xs = "tasks db" and x = task and p = p, OF ids]
        D pin
      by (simp add: db'_def del: set_map)
    have "swap_or_noop_tasks task
             (\<lambda>other. t_user_id other = uid \<and> t_is_completed other = t_is_completed task \<and>
                       sql_lt (t_order_index other) (t_order_index task)) db db'"
      unfolding swap_or_noop_tasks_def
      by (rule disjI1, rule bexI[of _ p]) (use pin ne tid in \<open>simp_all add: db'_def\<close>)
    with run keys show ?thesis by blast
  qed
qed

lemma move_task_down_swap:
  assumes ids: "distinct (map t_id (tasks db))"
    and task: "own_task uid task_id db = Some task"
  shows "\<exists>db'. move_task_down uid task_id db = Inr (db', None) \<and>
           swap_or_noop_tasks task
             (\<lambda>other. t_user_id other = uid \<and> t_is_completed other = t_is_completed task \<and>
                       sql_lt (t_order_index task) (t_order_index other)) db db' \<and>
           t_order_index ` {t \<in> set (tasks db'). t_user_id t = uid} =
           t_order_index ` {t \<in> set (tasks db). t_user_id t = uid}"
proof -
  note D = own_taskD[OF task]
  have tid: "t_id task = task_id" using D by simp
  let ?setk = "\<lambda>k (t::task). t\<lparr>t_order_index := k\<rparr>"
  let ?cand = "filter (\<lambda>other. t_user_id other = uid \<and>
                          sql_lt (t_order_index task) (t_order_index other) \<and>
                          t_is_completed other = t_is_completed task) (tasks db)"
  show ?thesis
  proof (cases "first_asc t_order_index ?cand")
    case None
    then have "?cand = []" by simp
    then have none: "\<not> (\<exists>other \<in> set (tasks db).
                   t_user_id other = uid \<and> t_is_completed other = t_is_completed task \<and>
                   sql_lt (t_order_index task) (t_order_index other))"
      by (auto simp: filter_empty_conv)
    have run: "move_task_down uid task_id db = Inr (db, None)"
      using task None by (simp add: move_task_down_def)
    have "swap_or_noop_tasks task
             (\<lambda>other. t_user_id other = uid \<and> t_is_completed other = t_is_completed task \<and>
                       sql_lt (t_order_index task) (t_order_index other)) db db"
      unfolding swap_or_noop_tasks_def using none by simp
    with run show ?thesis by blast
  next
    case (Some p)
    from first_asc_Some[OF Some]
    have pin: "p \<in> set (tasks db)" "t_user_id p = uid" "sql_lt (t_order_index task) (t_order_index p)"
      "t_is_completed p = t_is_completed task" by auto
    have ne: "t_id p \<noteq> task_id"
    proof
      assume "t_id p = task_id"
      then have "t_id p = t_id task" using D by simp
      with ids pin(1) D have "p = task" by (intro same_id_same_row[of t_id "tasks db"]) simp_all
      with pin(3) show False by (simp add: sql_lt_iff)
    qed
    define db' where "db' = db\<lparr>tasks :=
                        map (\<lambda>t. if t_id t = t_id task
                                  then t\<lparr>t_order_index := t_order_index p\<rparr>
                                  else if t_id t = t_id p
                                  then t\<lparr>t_order_index := t_order_index task\<rparr> else t)
                            (tasks db)\<rparr>"
    have run: "move_task_down uid task_id db = Inr (db', None)"
      using task Some ne two_updates[of t_id "?setk (t_order_index p)" task_id "t_id p"
          "?setk (t_order_index task)" "tasks db"]
      by (simp add: move_task_down_def upd_task_def db'_def tid del: map_map)
    have keys: "t_order_index ` {t \<in> set (tasks db'). t_user_id t = uid} =
                t_order_index ` {t \<in> set (tasks db). t_user_id t = uid}"
      using swap_keeps_key_set[where idf = t_id and key = t_order_index and setk = ?setk
          and S = "\<lambda>t. t_user_id t = uid" and xs = "tasks db" and x = task and p = p, OF ids]
        D pin
      by (simp add: db'_def del: set_map)
    have "swap_or_noop_tasks task
             (\<lambda>other. t_user_id other = uid \<and> t_is_completed other = t_is_completed task \<and>
                       sql_lt (t_order_index task) (t_order_index other)) db db'"
      unfolding swap_or_noop_tasks_def
      by (rule disjI1, rule bexI[of _ p]) (use pin ne tid in \<open>simp_all add: db'_def\<close>)
    with run keys show ?thesis by blast
  qed
qed

lemma move_subtask_up_swap:
  assumes ids: "distinct (map s_id (subtasks db))"
    and subtask: "own_subtask uid subtask_id db = Some subtask"
  shows "\<exists>db'. move_subtask_up uid subtask_id db = Inr (db', None) \<and>
           swap_or_noop_subtasks subtask
             (\<lambda>other. s_task_id other = s_task_id subtask \<and>
                       s_is_completed other = s_is_completed subtask \<and>
                       sql_lt (s_order_index other) (s_order_index subtask)) db db' \<and>
           s_order_index ` {s \<in> set (subtasks db'). s_task_id s = s_task_id subtask} =
           s_order_index ` {s \<in> set (subtasks db). s_task_id s = s_task_id subtask}"
proof -
  note D = own_subtaskD[OF subtask]
  have sid: "s_id subtask = subtask_id" using D by simp
  let ?setk = "\<lambda>k (s::subtask). s\<lparr>s_order_index := k\<rparr>"
  let ?cand = "filter (\<lambda>other. s_task_id other = s_task_id subtask \<and>
                          sql_lt (s_order_index other) (s_order_index subtask) \<and>
                          s_is_completed other = s_is_completed subtask) (subtasks db)"
  show ?thesis
  proof (cases "first_desc s_order_index ?cand")
    case None
    then have "?cand = []" by simp
    then have none: "\<not> (\<exists>other \<in> set (subtasks db).
                   s_task_id other = s_task_id subtask \<and>
                   s_is_completed other = s_is_completed subtask \<and>
                   sql_lt (s_order_index other) (s_order_index subtask))"
      by (auto simp: filter_empty_conv)
    have run: "move_subtask_up uid subtask_id db = Inr (db, None)"
      using subtask None by (simp add: move_subtask_up_def)
    have "swap_or_noop_subtasks subtask
             (\<lambda>other. s_task_id other = s_task_id subtask \<and>
                       s_is_completed other = s_is_completed subtask \<and>
                       sql_lt (s_order_index other) (s_order_index subtask)) db db"
      unfolding swap_or_noop_subtasks_def using none by simp
    with run show ?thesis by blast
  next
    case (Some p)
    from first_desc_Some[OF Some]
    have pin: "p \<in> set (subtasks db)" "s_task_id p = s_task_id subtask" "sql_lt (s_order_index p) (s_order_index subtask)"
      "s_is_completed p = s_is_completed subtask" by auto
    have ne: "s_id p \<noteq> subtask_id"
    proof
      assume "s_id p = subtask_id"
      then have "s_id p = s_id subtask" using D by simp
      with ids pin(1) D have "p = subtask"
        by (intro same_id_same_row[of s_id "subtasks db"]) simp_all
      with pin(3) show False by (simp add: sql_lt_iff)
    qed
    define db' where "db' = db\<lparr>subtasks :=
                        map (\<lambda>s. if s_id s = s_id subtask
                                  then s\<lparr>s_order_index := s_order_index p\<rparr>
                                  else if s_id s = s_id p
                                  then s\<lparr>s_order_index := s_order_index subtask\<rparr> else s)
                            (subtasks db)\<rparr>"
    have run: "move_subtask_up uid subtask_id db = Inr (db', None)"
      using subtask Some ne two_updates[of s_id "?setk (s_order_index p)" subtask_id "s_id p"
          "?setk (s_order_index subtask)" "subtasks db"]
      by (simp add: move_subtask_up_def upd_subtask_def db'_def sid del: map_map)
    have keys: "s_order_index ` {s \<in> set (subtasks db'). s_task_id s = s_task_id subtask} =
                s_order_index ` {s \<in> set (subtasks db). s_task_id s = s_task_id subtask}"
      using swap_keeps_key_set[where idf = s_id and key = s_order_index and setk = ?setk
          and S = "\<lambda>s. s_task_id s = s_task_id subtask" and xs = "subtasks db"
          and x = subtask and p = p, OF ids]
        D pin
      by (simp add: db'_def del: set_map)
    have "swap_or_noop_subtasks subtask
             (\<lambda>other. s_task_id other = s_task_id subtask \<and>
                       s_is_completed other = s_is_completed subtask \<and>
                       sql_lt (s_order_index other) (s_order_index subtask)) db db'"
      unfolding swap_or_noop_subtasks_def
      by (rule disjI1, rule bexI[of _ p]) (use pin ne sid in \<open>simp_all add: db'_def\<close>)
    with run keys show ?thesis by blast
  qed
qed

lemma move_subtask_down_swap:
  assumes ids: "distinct (map s_id (subtasks db))"
    and subtask: "own_subtask uid subtask_id db = Some subtask"
  shows "\<exists>db'. move_subtask_down uid subtask_id db = Inr (db', None) \<and>
           swap_or_noop_subtasks subtask
             (\<lambda>other. s_task_id other = s_task_id subtask \<and>
                       s_is_completed other = s_is_completed subtask \<and>
                       sql_lt (s_order_index subtask) (s_order_index other)) db db' \<and>
           s_order_index ` {s \<in> set (subtasks db'). s_task_id s = s_task_id subtask} =
           s_order_index ` {s \<in> set (subtasks db). s_task_id s = s_task_id subtask}"
proof -
  note D = own_subtaskD[OF subtask]
  have sid: "s_id subtask = subtask_id" using D by simp
  let ?setk = "\<lambda>k (s::subtask). s\<lparr>s_order_index := k\<rparr>"
  let ?cand = "filter (\<lambda>other. s_task_id other = s_task_id subtask \<and>
                          sql_lt (s_order_index subtask) (s_order_index other) \<and>
                          s_is_completed other = s_is_completed subtask) (subtasks db)"
  show ?thesis
  proof (cases "first_asc s_order_index ?cand")
    case None
    then have "?cand = []" by simp
    then have none: "\<not> (\<exists>other \<in> set (subtasks db).
                   s_task_id other = s_task_id subtask \<and>
                   s_is_completed other = s_is_completed subtask \<and>
                   sql_lt (s_order_index subtask) (s_order_index other))"
      by (auto simp: filter_empty_conv)
    have run: "move_subtask_down uid subtask_id db = Inr (db, None)"
      using subtask None by (simp add: move_subtask_down_def)
    have "swap_or_noop_subtasks subtask
             (\<lambda>other. s_task_id other = s_task_id subtask \<and>
                       s_is_completed other = s_is_completed subtask \<and>
                       sql_lt (s_order_index subtask) (s_order_index other)) db db"
      unfolding swap_or_noop_subtasks_def using none by simp
    with run show ?thesis by blast
  next
    case (Some p)
    from first_asc_Some[OF Some]
    have pin: "p \<in> set (subtasks db)" "s_task_id p = s_task_id subtask" "sql_lt (s_order_index subtask) (s_order_index p)"
      "s_is_completed p = s_is_completed subtask" by auto
    have ne: "s_id p \<noteq> subtask_id"
    proof
      assume "s_id p = subtask_id"
      then have "s_id p = s_id subtask" using D by simp
      with ids pin(1) D have "p = subtask"
        by (intro same_id_same_row[of s_id "subtasks db"]) simp_all
      with pin(3) show False by (simp add: sql_lt_iff)
    qed
    define db' where "db' = db\<lparr>subtasks :=
                        map (\<lambda>s. if s_id s = s_id subtask
                                  then s\<lparr>s_order_index := s_order_index p\<rparr>
                                  else if s_id s = s_id p
                                  then s\<lparr>s_order_index := s_order_index subtask\<rparr> else s)
                            (subtasks db)\<rparr>"
    have run: "move_subtask_down uid subtask_id db = Inr (db', None)"
      using subtask Some ne two_updates[of s_id "?setk (s_order_index p)" subtask_id "s_id p"
          "?setk (s_order_index subtask)" "subtasks db"]
      by (simp add: move_subtask_down_def upd_subtask_def db'_def sid del: map_map)
    have keys: "s_order_index ` {s \<in> set (subtasks db'). s_task_id s = s_task_id subtask} =
                s_order_index ` {s \<in> set (subtasks db). s_task_id s = s_task_id subtask}"
      using swap_keeps_key_set[where idf = s_id and key = s_order_index and setk = ?setk
          and S = "\<lambda>s. s_task_id s = s_task_id subtask" and xs = "subtasks db"
          and x = subtask and p = p, OF ids]
        D pin
      by (simp add: db'_def del: set_map)
    have "swap_or_noop_subtasks subtask
             (\<lambda>other. s_task_id other = s_task_id subtask \<and>
                       s_is_completed other = s_is_completed subtask \<and>
                       sql_lt (s_order_index subtask) (s_order_index other)) db db'"
      unfolding swap_or_noop_subtasks_def
      by (rule disjI1, rule bexI[of _ p]) (use pin ne sid in \<open>simp_all add: db'_def\<close>)
    with run keys show ?thesis by blast
  qed
qed

text \<open>What a successful creation appends.\<close>

lemma add_task_created:
  assumes "add_task lib uid form db = Inr (db1, None)"
  shows "\<exists>new. db1 = db\<lparr>tasks := tasks db @ [new]\<rparr> \<and> t_user_id new = uid \<and> \<not> t_is_completed new \<and>
           t_id new = next_id (map t_id (tasks db)) \<and>
           t_order_index new = Some (spec_append_new (task_order_keys uid db))"
  using assms
  by (auto simp: add_task_def Let_def highest_order_plus_one task_order_keys_def
      split: option.splits if_splits)

lemma add_subtask_created:
  assumes "add_subtask uid task_id d db = Inr (db1, None)"
  shows "\<exists>new. subtasks db1 = subtasks db @ [new] \<and> s_task_id new = task_id \<and> \<not> s_is_completed new \<and>
           s_id new = next_id (map s_id (subtasks db)) \<and>
           s_order_index new = Some (spec_append_new (subtask_order_keys task_id db))"
  using assms
  by (auto simp: add_subtask_def Let_def highest_order_plus_one subtask_order_keys_def task_subtasks_def
      split: option.splits if_splits)



section \<open>Preservation of the invariant\<close>

lemma keys_consistent_cong:
  assumes "map u_id (users a) = map u_id (users b)"
    and "map t_id (tasks a) = map t_id (tasks b)"
    and "map t_user_id (tasks a) = map t_user_id (tasks b)"
    and "map s_id (subtasks a) = map s_id (subtasks b)"
    and "map s_task_id (subtasks a) = map s_task_id (subtasks b)"
  shows "keys_consistent a = keys_consistent b"
proof -
  have 1: "(\<forall>t \<in> set (tasks d). t_user_id t \<in> u_id ` set (users d)) =
           (set (map t_user_id (tasks d)) \<subseteq> set (map u_id (users d)))" for d
    by auto
  have 2: "(\<forall>s \<in> set (subtasks d). s_task_id s \<in> t_id ` set (tasks d)) =
           (set (map s_task_id (subtasks d)) \<subseteq> set (map t_id (tasks d)))" for d
    by auto
  show ?thesis unfolding keys_consistent_def 1 2 assms ..
qed

lemma task_keys_unique_cong:
  assumes "map (\<lambda>t. (t_id t, t_user_id t, t_order_index t)) (tasks a) =
           map (\<lambda>t. (t_id t, t_user_id t, t_order_index t)) (tasks b)"
  shows "task_keys_unique a = task_keys_unique b"
proof -
  have P: "task_keys_unique d =
        (\<forall>x \<in> set (map (\<lambda>t. (t_id t, t_user_id t, t_order_index t)) (tasks d)).
         \<forall>y \<in> set (map (\<lambda>t. (t_id t, t_user_id t, t_order_index t)) (tasks d)).
           fst (snd x) = fst (snd y) \<and> snd (snd x) = snd (snd y) \<and> snd (snd x) \<noteq> None
           \<longrightarrow> fst x = fst y)" for d
    unfolding task_keys_unique_def by simp
  show ?thesis unfolding P assms ..
qed

lemma subtask_keys_unique_cong:
  assumes "map (\<lambda>s. (s_id s, s_task_id s, s_order_index s)) (subtasks a) =
           map (\<lambda>s. (s_id s, s_task_id s, s_order_index s)) (subtasks b)"
  shows "subtask_keys_unique a = subtask_keys_unique b"
proof -
  have P: "subtask_keys_unique d =
        (\<forall>x \<in> set (map (\<lambda>s. (s_id s, s_task_id s, s_order_index s)) (subtasks d)).
         \<forall>y \<in> set (map (\<lambda>s. (s_id s, s_task_id s, s_order_index s)) (subtasks d)).
           fst (snd x) = fst (snd y) \<and> snd (snd x) = snd (snd y) \<and> snd (snd x) \<noteq> None
           \<longrightarrow> fst x = fst y)" for d
    unfolding subtask_keys_unique_def by simp
  show ?thesis unfolding P assms ..
qed

lemma flags_consistent_cong:
  assumes "map (\<lambda>t. (t_id t, t_is_completed t)) (tasks a) =
           map (\<lambda>t. (t_id t, t_is_completed t)) (tasks b)"
    and "map (\<lambda>s. (s_task_id s, s_is_completed s)) (subtasks a) =
         map (\<lambda>s. (s_task_id s, s_is_completed s)) (subtasks b)"
  shows "flags_consistent a = flags_consistent b"
proof -
  have P: "flags_consistent d =
        (\<forall>x \<in> set (map (\<lambda>t. (t_id t, t_is_completed t)) (tasks d)). snd x \<longrightarrow>
           (\<forall>y \<in> set (map (\<lambda>s. (s_task_id s, s_is_completed s)) (subtasks d)).
              fst y = fst x \<longrightarrow> snd y))" for d
    unfolding flags_consistent_def by simp
  show ?thesis unfolding P assms ..
qed

lemma map_proj:
  assumes "map T xs = map T ys"
  shows "map (\<lambda>x. h (T x)) xs = map (\<lambda>x. h (T x)) ys"
  using arg_cong[OF assms, of "map h"] by (simp add: comp_def)

lemma db_invariant_cong:
  assumes u: "map u_id (users a) = map u_id (users b)"
    and t: "map (\<lambda>t. (t_id t, t_user_id t, t_order_index t, t_is_completed t)) (tasks a) =
            map (\<lambda>t. (t_id t, t_user_id t, t_order_index t, t_is_completed t)) (tasks b)"
    and s: "map (\<lambda>s. (s_id s, s_task_id s, s_order_index s, s_is_completed s)) (subtasks a) =
            map (\<lambda>s. (s_id s, s_task_id s, s_order_index s, s_is_completed s)) (subtasks b)"
  shows "db_invariant a = db_invariant b"
proof -
  have t1: "map t_id (tasks a) = map t_id (tasks b)"
    using map_proj[OF t, of fst] by simp
  have t2: "map t_user_id (tasks a) = map t_user_id (tasks b)"
    using map_proj[OF t, of "\<lambda>x. fst (snd x)"] by simp
  have t3: "map (\<lambda>t. (t_id t, t_user_id t, t_order_index t)) (tasks a) =
            map (\<lambda>t. (t_id t, t_user_id t, t_order_index t)) (tasks b)"
    using map_proj[OF t, of "\<lambda>x. (fst x, fst (snd x), fst (snd (snd x)))"] by simp
  have t4: "map (\<lambda>t. (t_id t, t_is_completed t)) (tasks a) =
            map (\<lambda>t. (t_id t, t_is_completed t)) (tasks b)"
    using map_proj[OF t, of "\<lambda>x. (fst x, snd (snd (snd x)))"] by simp
  have s1: "map s_id (subtasks a) = map s_id (subtasks b)"
    using map_proj[OF s, of fst] by simp
  have s2: "map s_task_id (subtasks a) = map s_task_id (subtasks b)"
    using map_proj[OF s, of "\<lambda>x. fst (snd x)"] by simp
  have s3: "map (\<lambda>s. (s_id s, s_task_id s, s_order_index s)) (subtasks a) =
            map (\<lambda>s. (s_id s, s_task_id s, s_order_index s)) (subtasks b)"
    using map_proj[OF s, of "\<lambda>x. (fst x, fst (snd x), fst (snd (snd x)))"] by simp
  have s4: "map (\<lambda>s. (s_task_id s, s_is_completed s)) (subtasks a) =
            map (\<lambda>s. (s_task_id s, s_is_completed s)) (subtasks b)"
    using map_proj[OF s, of "\<lambda>x. (fst (snd x), snd (snd (snd x)))"] by simp
  show ?thesis
    unfolding db_invariant_def
    using keys_consistent_cong[OF u t1 t2 s1 s2] task_keys_unique_cong[OF t3]
      subtask_keys_unique_cong[OF s3] flags_consistent_cong[OF t4 s4]
    by simp
qed

lemma map_if_same:
  assumes "\<And>x. T (f x) = T x"
  shows "map (\<lambda>x. T (if c x then f x else x)) xs = map T xs"
  using assms by (induction xs) auto

text \<open>Handlers that change no key, no owner and no flag.\<close>

lemma edit_task_invariant:
  assumes "db_invariant db" "edit_task lib uid i form db = Inr (db', fl)"
  shows "db_invariant db'"
proof -
  have "db_invariant db' = db_invariant db"
    using assms(2)
    by (intro db_invariant_cong)
       (auto simp: edit_task_def Let_def comp_def map_if_same
          split: option.splits if_splits)
  with assms(1) show ?thesis by simp
qed

lemma edit_subtask_invariant:
  assumes "db_invariant db" "edit_subtask uid i d db = Inr (db', fl)"
  shows "db_invariant db'"
proof -
  have "db_invariant db' = db_invariant db"
    using assms(2)
    by (intro db_invariant_cong)
       (auto simp: edit_subtask_def comp_def map_if_same split: option.splits if_splits)
  with assms(1) show ?thesis by simp
qed

lemma add_category_invariant:
  assumes "db_invariant db" "add_category uid n c db = Inr (db', fl)"
  shows "db_invariant db'"
proof -
  have "db_invariant db' = db_invariant db"
    using assms(2)
    by (intro db_invariant_cong)
       (auto simp: add_category_def Let_def split: option.splits if_splits)
  with assms(1) show ?thesis by simp
qed

lemma edit_category_invariant:
  assumes "db_invariant db" "edit_category uid i n c db = Inr (db', fl)"
  shows "db_invariant db'"
proof -
  have "db_invariant db' = db_invariant db"
    using assms(2)
    by (intro db_invariant_cong)
       (auto simp: edit_category_def Let_def split: option.splits if_splits)
  with assms(1) show ?thesis by simp
qed

lemma delete_category_invariant:
  assumes "db_invariant db" "delete_category uid i db = Inr (db', fl)"
  shows "db_invariant db'"
proof -
  have "db_invariant db' = db_invariant db"
    using assms(2)
    by (intro db_invariant_cong)
       (auto simp: delete_category_def comp_def map_if_same split: option.splits if_splits)
  with assms(1) show ?thesis by simp
qed

lemma toggle_dark_mode_invariant:
  assumes "db_invariant db" "toggle_dark_mode uid db = Inr (db', fl)"
  shows "db_invariant db'"
proof -
  have "db_invariant db' = db_invariant db"
    using assms(2)
    by (intro db_invariant_cong)
       (auto simp: toggle_dark_mode_def comp_def map_if_same)
  with assms(1) show ?thesis by simp
qed

lemma structure_cong:
  assumes u: "map u_id (users a) = map u_id (users b)"
    and t: "map (\<lambda>t. (t_id t, t_user_id t, t_order_index t)) (tasks a) =
            map (\<lambda>t. (t_id t, t_user_id t, t_order_index t)) (tasks b)"
    and s: "map (\<lambda>s. (s_id s, s_task_id s, s_order_index s)) (subtasks a) =
            map (\<lambda>s. (s_id s, s_task_id s, s_order_index s)) (subtasks b)"
  shows "keys_consistent a = keys_consistent b"
    and "task_keys_unique a = task_keys_unique b"
    and "subtask_keys_unique a = subtask_keys_unique b"
proof -
  have t1: "map t_id (tasks a) = map t_id (tasks b)"
    using map_proj[OF t, of fst] by simp
  have t2: "map t_user_id (tasks a) = map t_user_id (tasks b)"
    using map_proj[OF t, of "\<lambda>x. fst (snd x)"] by simp
  have s1: "map s_id (subtasks a) = map s_id (subtasks b)"
    using map_proj[OF s, of fst] by simp
  have s2: "map s_task_id (subtasks a) = map s_task_id (subtasks b)"
    using map_proj[OF s, of "\<lambda>x. fst (snd x)"] by simp
  show "keys_consistent a = keys_consistent b"
    by (rule keys_consistent_cong[OF u t1 t2 s1 s2])
  show "task_keys_unique a = task_keys_unique b" by (rule task_keys_unique_cong[OF t])
  show "subtask_keys_unique a = subtask_keys_unique b" by (rule subtask_keys_unique_cong[OF s])
qed

lemma toggle_task_result:
  assumes "toggle_task uid task_id db = Inr (db', fl)"
  shows "\<exists>task. own_task uid task_id db = Some task \<and>
          db' = (if \<not> t_is_completed task \<and> subtask_count db task_id > 0
                 then (upd_task task_id (\<lambda>t. t\<lparr>t_is_completed := \<not> t_is_completed task\<rparr>) db)
                        \<lparr>subtasks := map (\<lambda>s. if s_id s \<in> s_id ` set (task_subtasks db task_id)
                                               then s\<lparr>s_is_completed := True\<rparr> else s)
                                         (subtasks db)\<rparr>
                 else upd_task task_id (\<lambda>t. t\<lparr>t_is_completed := \<not> t_is_completed task\<rparr>) db)"
proof -
  from assms obtain task where task: "own_task uid task_id db = Some task"
    by (auto simp: toggle_task_def split: option.splits)
  then show ?thesis
    using assms by (auto simp: toggle_task_def Let_def fold_set_flag has_subtasks_def)
qed

lemma toggle_task_invariant:
  assumes inv: "db_invariant db" and run: "toggle_task uid i db = Inr (db', fl)"
  shows "db_invariant db'"
proof -
  from toggle_task_result[OF run] obtain task where
    task: "own_task uid i db = Some task" and
    db': "db' = (if \<not> t_is_completed task \<and> subtask_count db i > 0
                 then (upd_task i (\<lambda>t. t\<lparr>t_is_completed := \<not> t_is_completed task\<rparr>) db)
                        \<lparr>subtasks := map (\<lambda>s. if s_id s \<in> s_id ` set (task_subtasks db i)
                                               then s\<lparr>s_is_completed := True\<rparr> else s)
                                         (subtasks db)\<rparr>
                 else upd_task i (\<lambda>t. t\<lparr>t_is_completed := \<not> t_is_completed task\<rparr>) db)"
    by blast
  have u: "map u_id (users db') = map u_id (users db)" by (simp add: db')
  have t: "map (\<lambda>t. (t_id t, t_user_id t, t_order_index t)) (tasks db') =
           map (\<lambda>t. (t_id t, t_user_id t, t_order_index t)) (tasks db)"
    by (simp add: db' comp_def map_if_same)
  have s: "map (\<lambda>s. (s_id s, s_task_id s, s_order_index s)) (subtasks db') =
           map (\<lambda>s. (s_id s, s_task_id s, s_order_index s)) (subtasks db)"
    by (simp add: db' comp_def map_if_same)
  have fc: "flags_consistent db'"
  proof (cases "\<not> t_is_completed task \<and> subtask_count db i > 0")
    case True
    then show ?thesis
      using inv unfolding db_invariant_def flags_consistent_def
      by (auto simp: db' task_subtasks_def)
  next
    case False
    have none: "\<forall>s \<in> set (subtasks db). s_task_id s \<noteq> i" if "subtask_count db i = 0"
      using that by (auto simp: subtask_count_def task_subtasks_def filter_empty_conv)
    from False show ?thesis
      using inv none unfolding db_invariant_def flags_consistent_def
      by (auto simp: db')
  qed
  show ?thesis
    using inv fc structure_cong[OF u t s] unfolding db_invariant_def by simp
qed

lemma toggle_subtask_found:
  assumes "toggle_subtask uid subtask_id db = Inr (db', fl)"
  obtains st where "own_subtask uid subtask_id db = Some st"
  using assms by (auto simp: toggle_subtask_def split: option.splits)

lemma toggle_subtask_result:
  assumes "toggle_subtask uid subtask_id db = Inr (db', fl)"
    and st: "own_subtask uid subtask_id db = Some st"
  shows "db' = upd_task (s_task_id st)
                  (\<lambda>t. t\<lparr>t_is_completed :=
                           (\<forall>s' \<in> set (subtasks
                                (upd_subtask subtask_id
                                   (\<lambda>s. s\<lparr>s_is_completed := \<not> s_is_completed st\<rparr>) db)).
                               s_task_id s' = s_task_id st \<longrightarrow> s_is_completed s')\<rparr>)
                  (upd_subtask subtask_id (\<lambda>s. s\<lparr>s_is_completed := \<not> s_is_completed st\<rparr>) db)"
  using assms unfolding toggle_subtask_def Let_def counts_equal_iff
  by (simp add: flag_branches)

lemma toggle_subtask_invariant:
  assumes inv: "db_invariant db" and run: "toggle_subtask uid i db = Inr (db', fl)"
  shows "db_invariant db'"
proof -
  from toggle_subtask_found[OF run] obtain st where st: "own_subtask uid i db = Some st" .
  note db0 = toggle_subtask_result[OF run st]
  define b where "b = (\<forall>s' \<in> set (subtasks
                                (upd_subtask i
                                   (\<lambda>s. s\<lparr>s_is_completed := \<not> s_is_completed st\<rparr>) db)).
                               s_task_id s' = s_task_id st \<longrightarrow> s_is_completed s')"
  have db': "db' = upd_task (s_task_id st) (\<lambda>t. t\<lparr>t_is_completed := b\<rparr>)
                  (upd_subtask i (\<lambda>s. s\<lparr>s_is_completed := \<not> s_is_completed st\<rparr>) db)"
    unfolding b_def by (rule db0)
  note D = own_subtaskD[OF st]
  from inv have sids: "distinct (map s_id (subtasks db))"
    and fc: "flags_consistent db"
    by (simp_all add: db_invariant_def keys_consistent_def)
  have row: "s = st" if "s \<in> set (subtasks db)" "s_id s = i" for s
    using sids that(1) D that(2) by (intro same_id_same_row[of s_id "subtasks db"]) simp_all
  have u: "map u_id (users db') = map u_id (users db)" by (simp add: db')
  have t: "map (\<lambda>t. (t_id t, t_user_id t, t_order_index t)) (tasks db') =
           map (\<lambda>t. (t_id t, t_user_id t, t_order_index t)) (tasks db)"
    by (simp add: db' comp_def map_if_same)
  have s: "map (\<lambda>s. (s_id s, s_task_id s, s_order_index s)) (subtasks db') =
           map (\<lambda>s. (s_id s, s_task_id s, s_order_index s)) (subtasks db)"
    by (simp add: db' comp_def map_if_same)
  let ?g = "\<lambda>t. if t_id t = s_task_id st then t\<lparr>t_is_completed := b\<rparr> else t"
  let ?h = "\<lambda>s. if s_id s = i then s\<lparr>s_is_completed := \<not> s_is_completed st\<rparr> else s"
  have T: "set (tasks db') = ?g ` set (tasks db)" by (simp add: db')
  have S: "set (subtasks db') = ?h ` set (subtasks db)" by (simp add: db')
  have "flags_consistent db'"
    unfolding flags_consistent_def
  proof (intro ballI impI)
    fix t' s'
    assume t': "t' \<in> set (tasks db')" "t_is_completed t'"
      and s': "s' \<in> set (subtasks db')" "s_task_id s' = t_id t'"
    from t'(1) obtain t0 where t0: "t0 \<in> set (tasks db)" "t' = ?g t0"
      unfolding T by (rule imageE)
    from s'(1) obtain s0 where s0: "s0 \<in> set (subtasks db)" "s' = ?h s0"
      unfolding S by (rule imageE)
    have task_of: "s_task_id s' = s_task_id s0" unfolding s0(2) by simp
    have id_of: "t_id t' = t_id t0" unfolding t0(2) by simp
    show "s_is_completed s'"
    proof (cases "t_id t0 = s_task_id st")
      case True
      then have "t' = t0\<lparr>t_is_completed := b\<rparr>" unfolding t0(2) by simp
      then have "t_is_completed t' = b" by simp
      with t'(2) have b by simp
      then have all: "\<forall>x \<in> ?h ` set (subtasks db). s_task_id x = s_task_id st \<longrightarrow> s_is_completed x"
        unfolding b_def by (simp only: upd_subtask_fields set_map)
      have "s_task_id s' = s_task_id st" using s'(2) id_of True by simp
      with all s'(1)[unfolded S] show ?thesis by blast
    next
      case False
      then have "t' = t0" unfolding t0(2) by simp
      with t0(1) have told: "t' \<in> set (tasks db)" by simp
      have "s_id s0 \<noteq> i"
      proof
        assume "s_id s0 = i"
        then have "s0 = st" by (rule row[OF s0(1)])
        then have "s_task_id s' = s_task_id st" using task_of by simp
        then have "t_id t0 = s_task_id st" using s'(2) id_of by simp
        with False show False by simp
      qed
      then have "s' = s0" unfolding s0(2) by simp
      with s0(1) have "s' \<in> set (subtasks db)" by simp
      from fc[unfolded flags_consistent_def, rule_format, OF told t'(2) this s'(2)]
      show ?thesis .
    qed
  qed
  then show ?thesis
    using inv structure_cong[OF u t s] unfolding db_invariant_def by simp
qed

lemma reset_all_tasks_eq:
  assumes "distinct (map t_id (tasks db))" and "distinct (map s_id (subtasks db))"
  shows "reset_all_tasks uid db =
         Inr (db\<lparr>tasks := map (\<lambda>t. if t_user_id t = uid
                                    then t\<lparr>t_is_completed := False\<rparr> else t) (tasks db),
                 subtasks := map (\<lambda>s. if \<exists>t \<in> set (tasks db).
                                             t_id t = s_task_id s \<and> t_user_id t = uid
                                       then s\<lparr>s_is_completed := False\<rparr> else s)
                                 (subtasks db)\<rparr>, None)"
proof -
  let ?ts = "filter (\<lambda>t. t_user_id t = uid) (tasks db)"
  have t: "map (\<lambda>t. if t_id t \<in> t_id ` set ?ts then t\<lparr>t_is_completed := False\<rparr> else t) (tasks db) =
           map (\<lambda>t. if t_user_id t = uid then t\<lparr>t_is_completed := False\<rparr> else t) (tasks db)"
    by (rule map_cong_set) (simp add: ids_of_filter[OF assms(1)])
  have mem: "(i \<in> t_id ` set ?ts) = (\<exists>t \<in> set (tasks db). t_id t = i \<and> t_user_id t = uid)" for i
    by auto
  have s: "map (\<lambda>s. if s_id s \<in> s_id ` {x \<in> set (subtasks db). s_task_id x \<in> t_id ` set ?ts}
                      then s\<lparr>s_is_completed := False\<rparr> else s) (subtasks db) =
           map (\<lambda>s. if \<exists>t \<in> set (tasks db). t_id t = s_task_id s \<and> t_user_id t = uid
                      then s\<lparr>s_is_completed := False\<rparr> else s) (subtasks db)"
    by (rule map_cong_set) (simp only: ids_of_filter[OF assms(2)] mem)
  show ?thesis
    unfolding reset_all_tasks_def fold_reset_task t s ..
qed

lemma reset_all_tasks_invariant:
  assumes inv: "db_invariant db" and run: "reset_all_tasks uid db = Inr (db', fl)"
  shows "db_invariant db'"
proof -
  from inv have tids: "distinct (map t_id (tasks db))" and sids: "distinct (map s_id (subtasks db))"
    and fc: "flags_consistent db"
    by (simp_all add: db_invariant_def keys_consistent_def)
  from run have db': "db' = db\<lparr>tasks := map (\<lambda>t. if t_user_id t = uid
                                    then t\<lparr>t_is_completed := False\<rparr> else t) (tasks db),
                 subtasks := map (\<lambda>s. if \<exists>t \<in> set (tasks db).
                                             t_id t = s_task_id s \<and> t_user_id t = uid
                                       then s\<lparr>s_is_completed := False\<rparr> else s)
                                 (subtasks db)\<rparr>"
    unfolding reset_all_tasks_eq[OF tids sids] by simp
  have u: "map u_id (users db') = map u_id (users db)" by (simp add: db')
  have t: "map (\<lambda>t. (t_id t, t_user_id t, t_order_index t)) (tasks db') =
           map (\<lambda>t. (t_id t, t_user_id t, t_order_index t)) (tasks db)"
    by (simp add: db' comp_def map_if_same)
  have s: "map (\<lambda>s. (s_id s, s_task_id s, s_order_index s)) (subtasks db') =
           map (\<lambda>s. (s_id s, s_task_id s, s_order_index s)) (subtasks db)"
    by (simp add: db' comp_def map_if_same)
  let ?g = "\<lambda>t. if t_user_id t = uid then t\<lparr>t_is_completed := False\<rparr> else t"
  let ?h = "\<lambda>s. if \<exists>t \<in> set (tasks db). t_id t = s_task_id s \<and> t_user_id t = uid
                 then s\<lparr>s_is_completed := False\<rparr> else s"
  have T: "set (tasks db') = ?g ` set (tasks db)" by (simp add: db')
  have S: "set (subtasks db') = ?h ` set (subtasks db)" by (simp add: db')
  have "flags_consistent db'"
    unfolding flags_consistent_def
  proof (intro ballI impI)
    fix t' s'
    assume t': "t' \<in> set (tasks db')" "t_is_completed t'"
      and s': "s' \<in> set (subtasks db')" "s_task_id s' = t_id t'"
    from t'(1) obtain t0 where t0: "t0 \<in> set (tasks db)" "t' = ?g t0"
      unfolding T by (rule imageE)
    from s'(1) obtain s0 where s0: "s0 \<in> set (subtasks db)" "s' = ?h s0"
      unfolding S by (rule imageE)
    have task_of: "s_task_id s' = s_task_id s0" unfolding s0(2) by simp
    have other: "t_user_id t0 \<noteq> uid"
    proof
      assume "t_user_id t0 = uid"
      then have "t' = t0\<lparr>t_is_completed := False\<rparr>" unfolding t0(2) by simp
      then have "\<not> t_is_completed t'" by simp
      with t'(2) show False by simp
    qed
    then have same: "t' = t0" unfolding t0(2) by simp
    with t0(1) have told: "t' \<in> set (tasks db)" by simp
    have "\<not> (\<exists>t \<in> set (tasks db). t_id t = s_task_id s0 \<and> t_user_id t = uid)"
    proof
      assume "\<exists>t \<in> set (tasks db). t_id t = s_task_id s0 \<and> t_user_id t = uid"
      then obtain t where t: "t \<in> set (tasks db)" "t_id t = s_task_id s0" "t_user_id t = uid"
        by blast
      have "t_id t = t_id t0" using t(2) task_of s'(2) same by simp
      with tids t(1) t0(1) have "t = t0" by (intro same_id_same_row[of t_id "tasks db"])
      with t(3) other show False by simp
    qed
    then have "?h s0 = s0" by (simp only: if_False)
    then have "s' = s0" unfolding s0(2) .
    with s0(1) have "s' \<in> set (subtasks db)" by simp
    from fc[unfolded flags_consistent_def, rule_format, OF told t'(2) this s'(2)]
    show "s_is_completed s'" .
  qed
  then show ?thesis
    using inv structure_cong[OF u t s] unfolding db_invariant_def by simp
qed

lemma task_keys_unique_subset:
  assumes "task_keys_unique db" "set (tasks db') \<subseteq> set (tasks db)"
  shows "task_keys_unique db'"
  unfolding task_keys_unique_def
proof (intro ballI impI)
  fix a b
  assume a: "a \<in> set (tasks db')" and b: "b \<in> set (tasks db')"
    and h: "t_user_id a = t_user_id b \<and> t_order_index a = t_order_index b \<and>
            t_order_index a \<noteq> None"
  from a b assms(2) have "a \<in> set (tasks db)" "b \<in> set (tasks db)" by auto
  from assms(1)[unfolded task_keys_unique_def, rule_format, OF this h]
  show "t_id a = t_id b" .
qed

lemma subtask_keys_unique_subset:
  assumes "subtask_keys_unique db" "set (subtasks db') \<subseteq> set (subtasks db)"
  shows "subtask_keys_unique db'"
  unfolding subtask_keys_unique_def
proof (intro ballI impI)
  fix a b
  assume a: "a \<in> set (subtasks db')" and b: "b \<in> set (subtasks db')"
    and h: "s_task_id a = s_task_id b \<and> s_order_index a = s_order_index b \<and>
            s_order_index a \<noteq> None"
  from a b assms(2) have "a \<in> set (subtasks db)" "b \<in> set (subtasks db)" by auto
  from assms(1)[unfolded subtask_keys_unique_def, rule_format, OF this h]
  show "s_id a = s_id b" .
qed

lemma flags_consistent_subset:
  assumes "flags_consistent db" "set (tasks db') \<subseteq> set (tasks db)"
    "set (subtasks db') \<subseteq> set (subtasks db)"
  shows "flags_consistent db'"
  unfolding flags_consistent_def
proof (intro ballI impI)
  fix t s
  assume t: "t \<in> set (tasks db')" "t_is_completed t"
    and s: "s \<in> set (subtasks db')" "s_task_id s = t_id t"
  from t(1) s(1) assms(2,3) have "t \<in> set (tasks db)" "s \<in> set (subtasks db)" by auto
  from assms(1)[unfolded flags_consistent_def, rule_format, OF this(1) t(2) this(2) s(2)]
  show "s_is_completed s" .
qed

lemma invariant_subtasks_filter:
  assumes "db_invariant db"
  shows "db_invariant (db\<lparr>subtasks := filter P (subtasks db)\<rparr>)"
proof -
  from assms have k: "keys_consistent db" and t: "task_keys_unique db"
    and s: "subtask_keys_unique db" and f: "flags_consistent db"
    by (simp_all add: db_invariant_def)
  have "keys_consistent (db\<lparr>subtasks := filter P (subtasks db)\<rparr>)"
    using k by (simp add: keys_consistent_def distinct_map_filter)
  moreover have "task_keys_unique (db\<lparr>subtasks := filter P (subtasks db)\<rparr>)"
    by (rule task_keys_unique_subset[OF t]) simp
  moreover have "subtask_keys_unique (db\<lparr>subtasks := filter P (subtasks db)\<rparr>)"
    by (rule subtask_keys_unique_subset[OF s]) simp
  moreover have "flags_consistent (db\<lparr>subtasks := filter P (subtasks db)\<rparr>)"
    using f by (simp add: flags_consistent_def)
  ultimately show ?thesis by (simp add: db_invariant_def)
qed

lemma delete_subtask_found:
  assumes "delete_subtask uid subtask_id db = Inr (db', fl)"
  obtains st where "own_subtask uid subtask_id db = Some st"
  using assms by (auto simp: delete_subtask_def split: option.splits)

lemma delete_subtask_result:
  assumes "delete_subtask uid subtask_id db = Inr (db', fl)"
    and "own_subtask uid subtask_id db = Some st"
  shows "db' = (let db1 = db\<lparr>subtasks := filter (\<lambda>s. s_id s \<noteq> subtask_id) (subtasks db)\<rparr>
                in if (\<exists>s \<in> set (subtasks db1). s_task_id s = s_task_id st) \<and>
                      (\<forall>s \<in> set (subtasks db1). s_task_id s = s_task_id st \<longrightarrow> s_is_completed s)
                   then upd_task (s_task_id st) (\<lambda>t. t\<lparr>t_is_completed := True\<rparr>) db1
                   else db1)"
proof -
  have pos: "(subtask_count d i > 0) = (\<exists>s \<in> set (subtasks d). s_task_id s = i)" for d i
    by (auto simp: subtask_count_def task_subtasks_def filter_empty_conv)
  show ?thesis
    using assms unfolding delete_subtask_def Let_def counts_equal_iff pos
    by (simp split: if_splits)
qed

lemma invariant_complete_task:
  assumes inv: "db_invariant db"
    and all: "\<forall>s \<in> set (subtasks db). s_task_id s = i \<longrightarrow> s_is_completed s"
  shows "db_invariant (upd_task i (\<lambda>t. t\<lparr>t_is_completed := True\<rparr>) db)"
proof -
  let ?db' = "upd_task i (\<lambda>t. t\<lparr>t_is_completed := True\<rparr>) db"
  let ?g = "\<lambda>t. if t_id t = i then t\<lparr>t_is_completed := True\<rparr> else t"
  from inv have fc: "flags_consistent db" by (simp add: db_invariant_def)
  have u: "map u_id (users ?db') = map u_id (users db)" by simp
  have t: "map (\<lambda>t. (t_id t, t_user_id t, t_order_index t)) (tasks ?db') =
           map (\<lambda>t. (t_id t, t_user_id t, t_order_index t)) (tasks db)"
    by (simp add: comp_def map_if_same)
  have s: "map (\<lambda>s. (s_id s, s_task_id s, s_order_index s)) (subtasks ?db') =
           map (\<lambda>s. (s_id s, s_task_id s, s_order_index s)) (subtasks db)"
    by simp
  have T: "set (tasks ?db') = ?g ` set (tasks db)" by simp
  have "flags_consistent ?db'"
    unfolding flags_consistent_def
  proof (intro ballI impI)
    fix t' s'
    assume t': "t' \<in> set (tasks ?db')" "t_is_completed t'"
      and s': "s' \<in> set (subtasks ?db')" "s_task_id s' = t_id t'"
    from t'(1) obtain t0 where t0: "t0 \<in> set (tasks db)" "t' = ?g t0"
      unfolding T by (rule imageE)
    have id_of: "t_id t' = t_id t0" unfolding t0(2) by simp
    from s'(1) have sold: "s' \<in> set (subtasks db)" by simp
    show "s_is_completed s'"
    proof (cases "t_id t0 = i")
      case True
      then have "s_task_id s' = i" using s'(2) id_of by simp
      with all sold show ?thesis by blast
    next
      case False
      then have "t' = t0" unfolding t0(2) by simp
      with t0(1) have told: "t' \<in> set (tasks db)" by simp
      from fc[unfolded flags_consistent_def, rule_format, OF told t'(2) sold s'(2)]
      show ?thesis .
    qed
  qed
  then show ?thesis
    using inv structure_cong[OF u t s] unfolding db_invariant_def by simp
qed

lemma delete_subtask_invariant:
  assumes inv: "db_invariant db" and run: "delete_subtask uid i db = Inr (db', fl)"
  shows "db_invariant db'"
proof -
  from delete_subtask_found[OF run] obtain st where st: "own_subtask uid i db = Some st" .
  let ?db1 = "db\<lparr>subtasks := filter (\<lambda>s. s_id s \<noteq> i) (subtasks db)\<rparr>"
  have inv1: "db_invariant ?db1" by (rule invariant_subtasks_filter[OF inv])
  note R = delete_subtask_result[OF run st, unfolded Let_def]
  show ?thesis
  proof (cases "(\<exists>s \<in> set (subtasks ?db1). s_task_id s = s_task_id st) \<and>
                (\<forall>s \<in> set (subtasks ?db1). s_task_id s = s_task_id st \<longrightarrow> s_is_completed s)")
    case True
    have "db' = upd_task (s_task_id st) (\<lambda>t. t\<lparr>t_is_completed := True\<rparr>) ?db1"
      unfolding R by (rule if_P[OF True])
    moreover from True
    have "\<forall>s \<in> set (subtasks ?db1). s_task_id s = s_task_id st \<longrightarrow> s_is_completed s" ..
    ultimately show ?thesis using invariant_complete_task[OF inv1] by simp
  next
    case False
    have "db' = ?db1"
      unfolding R by (rule if_not_P[OF False])
    with inv1 show ?thesis by simp
  qed
qed

lemma delete_task_invariant:
  assumes inv: "db_invariant db" and run: "delete_task uid i db = Inr (db', fl)"
  shows "db_invariant db'"
proof -
  from run have db': "db' = db\<lparr>tasks := filter (\<lambda>t. t_id t \<noteq> i) (tasks db),
                               subtasks := filter (\<lambda>s. s_task_id s \<noteq> i) (subtasks db)\<rparr>"
    by (auto simp: delete_task_def split: option.splits)
  from inv have k: "keys_consistent db" and t: "task_keys_unique db"
    and s: "subtask_keys_unique db" and f: "flags_consistent db"
    by (simp_all add: db_invariant_def)
  have "keys_consistent db'"
    using k unfolding keys_consistent_def db' by (auto simp: distinct_map_filter)
  moreover have "task_keys_unique db'"
    by (rule task_keys_unique_subset[OF t]) (simp add: db')
  moreover have "subtask_keys_unique db'"
    by (rule subtask_keys_unique_subset[OF s]) (simp add: db')
  moreover have "flags_consistent db'"
    by (rule flags_consistent_subset[OF f]) (simp_all add: db')
  ultimately show ?thesis by (simp add: db_invariant_def)
qed

lemma below_next_id: "k \<in> set ks \<Longrightarrow> k < next_id ks"
proof -
  assume k: "k \<in> set ks"
  then have ne: "ks \<noteq> []" by auto
  from k have "k \<le> Max (set ks)" by simp
  with ne show ?thesis by (simp add: next_id_def sql_max_eq)
qed

lemma next_id_fresh: "next_id (map f xs) \<notin> f ` set xs"
  using below_next_id[of "next_id (map f xs)" "map f xs"] by auto

lemma below_append_new: "k \<in> set ks \<Longrightarrow> k < spec_append_new ks"
proof -
  assume k: "k \<in> set ks"
  then have ne: "ks \<noteq> []" by auto
  from k have "k \<le> Max (set ks)" by simp
  with ne show ?thesis by (simp add: spec_append_new_def)
qed

lemma map_filter_mem: "x \<in> set xs \<Longrightarrow> f x = Some k \<Longrightarrow> k \<in> set (List.map_filter f xs)"
  by (induction xs) (auto simp: List.map_filter_simps split: option.splits)

lemma invariant_append_task:
  assumes inv: "db_invariant db"
    and fresh: "t_id new \<notin> t_id ` set (tasks db)"
    and owner: "t_user_id new \<in> u_id ` set (users db)"
    and flag: "\<not> t_is_completed new"
    and key: "\<forall>t \<in> set (tasks db). t_user_id t = t_user_id new \<longrightarrow>
                t_order_index t \<noteq> t_order_index new"
  shows "db_invariant (db\<lparr>tasks := tasks db @ [new]\<rparr>)"
proof -
  let ?db' = "db\<lparr>tasks := tasks db @ [new]\<rparr>"
  from inv have k: "keys_consistent db" and t: "task_keys_unique db"
    and s: "subtask_keys_unique db" and f: "flags_consistent db"
    by (simp_all add: db_invariant_def)
  have "keys_consistent ?db'"
  proof -
    from k have 1: "distinct (map u_id (users db))" and 2: "distinct (map t_id (tasks db))"
      and 3: "distinct (map s_id (subtasks db))"
      and 4: "\<forall>t \<in> set (tasks db). t_user_id t \<in> u_id ` set (users db)"
      and 5: "\<forall>s \<in> set (subtasks db). s_task_id s \<in> t_id ` set (tasks db)"
      unfolding keys_consistent_def by blast+
    have d2: "distinct (map t_id (tasks ?db'))" using 2 fresh by simp
    have d4: "\<forall>t \<in> set (tasks ?db'). t_user_id t \<in> u_id ` set (users ?db')"
      using 4 owner by simp
    have d5: "\<forall>s \<in> set (subtasks ?db'). s_task_id s \<in> t_id ` set (tasks ?db')"
    proof
      fix s assume "s \<in> set (subtasks ?db')"
      then have "s \<in> set (subtasks db)" by simp
      with 5 have "s_task_id s \<in> t_id ` set (tasks db)" by (rule bspec)
      then show "s_task_id s \<in> t_id ` set (tasks ?db')" by auto
    qed
    show ?thesis unfolding keys_consistent_def using 1 3 d2 d4 d5 by simp
  qed
  moreover have "task_keys_unique ?db'"
    unfolding task_keys_unique_def
  proof (intro ballI impI)
    fix a b
    assume a: "a \<in> set (tasks ?db')" and b: "b \<in> set (tasks ?db')"
      and h: "t_user_id a = t_user_id b \<and> t_order_index a = t_order_index b \<and>
              t_order_index a \<noteq> None"
    from a have a': "a \<in> set (tasks db) \<or> a = new" by auto
    from b have b': "b \<in> set (tasks db) \<or> b = new" by auto
    from h have hu: "t_user_id a = t_user_id b" by (rule conjunct1)
    from h have hk: "t_order_index a = t_order_index b" by (elim conjE)
    show "t_id a = t_id b"
    proof (cases "a = new")
      case True
      show ?thesis
      proof (cases "b = new")
        case True
        with \<open>a = new\<close> show ?thesis by simp
      next
        case False
        with b' have "b \<in> set (tasks db)" by simp
        with key have "t_user_id b = t_user_id new \<longrightarrow> t_order_index b \<noteq> t_order_index new"
          by (rule bspec)
        moreover have "t_user_id b = t_user_id new" using hu \<open>a = new\<close> by simp
        moreover have "t_order_index b = t_order_index new" using hk \<open>a = new\<close> by simp
        ultimately show ?thesis by simp
      qed
    next
      case False
      with a' have ain: "a \<in> set (tasks db)" by simp
      show ?thesis
      proof (cases "b = new")
        case True
        from key ain
        have "t_user_id a = t_user_id new \<longrightarrow> t_order_index a \<noteq> t_order_index new"
          by (rule bspec)
        moreover have "t_user_id a = t_user_id new" using hu True by simp
        moreover have "t_order_index a = t_order_index new" using hk True by simp
        ultimately show ?thesis by simp
      next
        case False
        with b' have "b \<in> set (tasks db)" by simp
        from t[unfolded task_keys_unique_def, rule_format, OF ain this h] show ?thesis .
      qed
    qed
  qed
  moreover have "subtask_keys_unique ?db'"
    by (rule subtask_keys_unique_subset[OF s]) simp
  moreover have "flags_consistent ?db'"
    unfolding flags_consistent_def
  proof (intro ballI impI)
    fix t' s'
    assume t': "t' \<in> set (tasks ?db')" "t_is_completed t'"
      and s': "s' \<in> set (subtasks ?db')" "s_task_id s' = t_id t'"
    from t'(1) have "t' \<in> set (tasks db) \<or> t' = new" by auto
    with t'(2) flag have told: "t' \<in> set (tasks db)" by auto
    from s'(1) have sold: "s' \<in> set (subtasks db)" by simp
    from f[unfolded flags_consistent_def, rule_format, OF told t'(2) sold s'(2)]
    show "s_is_completed s'" .
  qed
  ultimately show ?thesis by (simp add: db_invariant_def)
qed

lemma add_task_rejected:
  assumes "add_task lib uid form db = Inr (db', Some m)"
  shows "db' = db"
  using assms by (auto simp: add_task_def Let_def split: option.splits if_splits)

lemma add_task_invariant:
  assumes inv: "db_invariant db" and user: "uid \<in> u_id ` set (users db)"
    and run: "add_task lib uid form db = Inr (db', fl)"
  shows "db_invariant db'"
proof (cases fl)
  case (Some m)
  with run have "db' = db" using add_task_rejected by simp
  with inv show ?thesis by simp
next
  case None
  with run have "add_task lib uid form db = Inr (db', None)" by simp
  from add_task_created[OF this] obtain new where
    all: "db' = db\<lparr>tasks := tasks db @ [new]\<rparr> \<and> t_user_id new = uid \<and>
          \<not> t_is_completed new \<and> t_id new = next_id (map t_id (tasks db)) \<and>
          t_order_index new = Some (spec_append_new (task_order_keys uid db))" ..
  then have new: "db' = db\<lparr>tasks := tasks db @ [new]\<rparr>" "t_user_id new = uid"
      "\<not> t_is_completed new" "t_id new = next_id (map t_id (tasks db))"
      "t_order_index new = Some (spec_append_new (task_order_keys uid db))"
    by blast+
  have fresh: "t_id new \<notin> t_id ` set (tasks db)"
    unfolding new(4) by (rule next_id_fresh)
  have key: "\<forall>t \<in> set (tasks db). t_user_id t = t_user_id new \<longrightarrow>
                t_order_index t \<noteq> t_order_index new"
  proof (intro ballI impI notI)
    fix t assume t: "t \<in> set (tasks db)" "t_user_id t = t_user_id new"
      "t_order_index t = t_order_index new"
    from t new have "t \<in> set (filter (\<lambda>t. t_user_id t = uid) (tasks db))" by simp
    moreover from t(3) new(5)
    have "t_order_index t = Some (spec_append_new (task_order_keys uid db))" by simp
    ultimately have "spec_append_new (task_order_keys uid db) \<in> set (task_order_keys uid db)"
      unfolding task_order_keys_def by (rule map_filter_mem)
    from below_append_new[OF this] show False by simp
  qed
  show ?thesis
    unfolding new(1)
    by (rule invariant_append_task[OF inv fresh _ new(3) key]) (simp add: new(2) user)
qed

lemma invariant_reopen_task:
  assumes inv: "db_invariant db"
  shows "db_invariant (upd_task i (\<lambda>t. t\<lparr>t_is_completed := False\<rparr>) db)"
proof -
  let ?db' = "upd_task i (\<lambda>t. t\<lparr>t_is_completed := False\<rparr>) db"
  let ?g = "\<lambda>t. if t_id t = i then t\<lparr>t_is_completed := False\<rparr> else t"
  from inv have fc: "flags_consistent db" by (simp add: db_invariant_def)
  have u: "map u_id (users ?db') = map u_id (users db)" by simp
  have t: "map (\<lambda>t. (t_id t, t_user_id t, t_order_index t)) (tasks ?db') =
           map (\<lambda>t. (t_id t, t_user_id t, t_order_index t)) (tasks db)"
    by (simp add: comp_def map_if_same)
  have s: "map (\<lambda>s. (s_id s, s_task_id s, s_order_index s)) (subtasks ?db') =
           map (\<lambda>s. (s_id s, s_task_id s, s_order_index s)) (subtasks db)"
    by simp
  have T: "set (tasks ?db') = ?g ` set (tasks db)" by simp
  have "flags_consistent ?db'"
    unfolding flags_consistent_def
  proof (intro ballI impI)
    fix t' s'
    assume t': "t' \<in> set (tasks ?db')" "t_is_completed t'"
      and s': "s' \<in> set (subtasks ?db')" "s_task_id s' = t_id t'"
    from t'(1) obtain t0 where t0: "t0 \<in> set (tasks db)" "t' = ?g t0"
      unfolding T by (rule imageE)
    from s'(1) have sold: "s' \<in> set (subtasks db)" by simp
    have "t_id t0 \<noteq> i"
    proof
      assume "t_id t0 = i"
      then have "t' = t0\<lparr>t_is_completed := False\<rparr>" unfolding t0(2) by simp
      then have "\<not> t_is_completed t'" by simp
      with t'(2) show False by simp
    qed
    then have "t' = t0" unfolding t0(2) by simp
    with t0(1) have told: "t' \<in> set (tasks db)" by simp
    from fc[unfolded flags_consistent_def, rule_format, OF told t'(2) sold s'(2)]
    show "s_is_completed s'" .
  qed
  then show ?thesis
    using inv structure_cong[OF u t s] unfolding db_invariant_def by simp
qed

lemma invariant_append_subtask:
  assumes inv: "db_invariant db"
    and fresh: "s_id new \<notin> s_id ` set (subtasks db)"
    and parent: "s_task_id new \<in> t_id ` set (tasks db)"
    and opened: "\<forall>t \<in> set (tasks db). t_id t = s_task_id new \<longrightarrow> \<not> t_is_completed t"
    and key: "\<forall>s \<in> set (subtasks db). s_task_id s = s_task_id new \<longrightarrow>
                s_order_index s \<noteq> s_order_index new"
  shows "db_invariant (db\<lparr>subtasks := subtasks db @ [new]\<rparr>)"
proof -
  let ?db' = "db\<lparr>subtasks := subtasks db @ [new]\<rparr>"
  from inv have k: "keys_consistent db" and t: "task_keys_unique db"
    and s: "subtask_keys_unique db" and f: "flags_consistent db"
    by (simp_all add: db_invariant_def)
  have "keys_consistent ?db'"
    using k fresh parent unfolding keys_consistent_def by simp
  moreover have "task_keys_unique ?db'"
    by (rule task_keys_unique_subset[OF t]) simp
  moreover have "subtask_keys_unique ?db'"
    unfolding subtask_keys_unique_def
  proof (intro ballI impI)
    fix a b
    assume a: "a \<in> set (subtasks ?db')" and b: "b \<in> set (subtasks ?db')"
      and h: "s_task_id a = s_task_id b \<and> s_order_index a = s_order_index b \<and>
              s_order_index a \<noteq> None"
    from a have a': "a \<in> set (subtasks db) \<or> a = new" by auto
    from b have b': "b \<in> set (subtasks db) \<or> b = new" by auto
    from h have hu: "s_task_id a = s_task_id b" by (rule conjunct1)
    from h have hk: "s_order_index a = s_order_index b" by (elim conjE)
    show "s_id a = s_id b"
    proof (cases "a = new")
      case True
      show ?thesis
      proof (cases "b = new")
        case True
        with \<open>a = new\<close> show ?thesis by simp
      next
        case False
        with b' have "b \<in> set (subtasks db)" by simp
        with key have "s_task_id b = s_task_id new \<longrightarrow> s_order_index b \<noteq> s_order_index new"
          by (rule bspec)
        moreover have "s_task_id b = s_task_id new" using hu \<open>a = new\<close> by simp
        moreover have "s_order_index b = s_order_index new" using hk \<open>a = new\<close> by simp
        ultimately show ?thesis by simp
      qed
    next
      case False
      with a' have ain: "a \<in> set (subtasks db)" by simp
      show ?thesis
      proof (cases "b = new")
        case True
        from key ain
        have "s_task_id a = s_task_id new \<longrightarrow> s_order_index a \<noteq> s_order_index new"
          by (rule bspec)
        moreover have "s_task_id a = s_task_id new" using hu True by simp
        moreover have "s_order_index a = s_order_index new" using hk True by simp
        ultimately show ?thesis by simp
      next
        case False
        with b' have "b \<in> set (subtasks db)" by simp
        from s[unfolded subtask_keys_unique_def, rule_format, OF ain this h] show ?thesis .
      qed
    qed
  qed
  moreover have "flags_consistent ?db'"
    unfolding flags_consistent_def
  proof (intro ballI impI)
    fix t' s'
    assume t': "t' \<in> set (tasks ?db')" "t_is_completed t'"
      and s': "s' \<in> set (subtasks ?db')" "s_task_id s' = t_id t'"
    from t'(1) have told: "t' \<in> set (tasks db)" by simp
    from s'(1) have "s' \<in> set (subtasks db) \<or> s' = new" by auto
    moreover have "s' \<noteq> new"
    proof
      assume "s' = new"
      with s'(2) have "t_id t' = s_task_id new" by simp
      with opened told have "\<not> t_is_completed t'" by blast
      with t'(2) show False by simp
    qed
    ultimately have sold: "s' \<in> set (subtasks db)" by simp
    from f[unfolded flags_consistent_def, rule_format, OF told t'(2) sold s'(2)]
    show "s_is_completed s'" .
  qed
  ultimately show ?thesis by (simp add: db_invariant_def)
qed

lemma add_subtask_rejected:
  assumes "add_subtask uid i d db = Inr (db', Some m)"
  shows "db' = db"
  using assms by (auto simp: add_subtask_def Let_def split: option.splits if_splits)

lemma add_subtask_result:
  assumes "add_subtask uid i d db = Inr (db', None)"
  obtains task new where "own_task uid i db = Some task"
    "s_id new = next_id (map s_id (subtasks db))" "s_task_id new = i"
    "s_order_index new = Some (spec_append_new (subtask_order_keys i db))"
    "db' = (if t_is_completed task
            then (upd_task i (\<lambda>t. t\<lparr>t_is_completed := False\<rparr>) db)
                   \<lparr>subtasks := subtasks db @ [new]\<rparr>
            else db\<lparr>subtasks := subtasks db @ [new]\<rparr>)"
proof -
  from assms obtain task where task: "own_task uid i db = Some task"
    by (auto simp: add_subtask_def split: option.splits)
  from assms task obtain desc where d: "d = Some desc" "desc \<noteq> []"
    by (auto simp: add_subtask_def split: option.splits if_splits)
  define new where "new =
     \<lparr>s_id = next_id (map s_id (subtasks db)), s_description = desc, s_is_completed = False,
      s_order_index = Some (spec_append_new (subtask_order_keys i db)),
      s_task_id = i\<rparr>"
  have "db' = (if t_is_completed task
            then (upd_task i (\<lambda>t. t\<lparr>t_is_completed := False\<rparr>) db)
                   \<lparr>subtasks := subtasks db @ [new]\<rparr>
            else db\<lparr>subtasks := subtasks db @ [new]\<rparr>)"
    using assms task d
    by (auto simp: add_subtask_def Let_def new_def highest_order_plus_one subtask_order_keys_def
        task_subtasks_def upd_task_def)
  then show ?thesis
    using that[of task new] task by (simp add: new_def)
qed

lemma add_subtask_invariant:
  assumes inv: "db_invariant db" and run: "add_subtask uid i d db = Inr (db', fl)"
  shows "db_invariant db'"
proof (cases fl)
  case (Some m)
  with run have "db' = db" using add_subtask_rejected by simp
  with inv show ?thesis by simp
next
  case None
  with run have "add_subtask uid i d db = Inr (db', None)" by simp
  from add_subtask_result[OF this] obtain task new where
    task: "own_task uid i db = Some task"
    and new: "s_id new = next_id (map s_id (subtasks db))" "s_task_id new = i"
      "s_order_index new = Some (spec_append_new (subtask_order_keys i db))"
    and db': "db' = (if t_is_completed task
            then (upd_task i (\<lambda>t. t\<lparr>t_is_completed := False\<rparr>) db)
                   \<lparr>subtasks := subtasks db @ [new]\<rparr>
            else db\<lparr>subtasks := subtasks db @ [new]\<rparr>)" .
  note D = own_taskD[OF task]
  from inv have tids: "distinct (map t_id (tasks db))"
    by (simp add: db_invariant_def keys_consistent_def)
  have fresh: "s_id new \<notin> s_id ` set (subtasks db)"
    unfolding new(1) by (rule next_id_fresh)
  have key: "\<forall>s \<in> set (subtasks db). s_task_id s = s_task_id new \<longrightarrow>
                s_order_index s \<noteq> s_order_index new"
  proof (intro ballI impI notI)
    fix s assume s: "s \<in> set (subtasks db)" "s_task_id s = s_task_id new"
      "s_order_index s = s_order_index new"
    from s new have "s \<in> set (filter (\<lambda>s. s_task_id s = i) (subtasks db))" by simp
    moreover from s(3) new(3)
    have "s_order_index s = Some (spec_append_new (subtask_order_keys i db))" by simp
    ultimately have "spec_append_new (subtask_order_keys i db) \<in> set (subtask_order_keys i db)"
      unfolding subtask_order_keys_def by (rule map_filter_mem)
    from below_append_new[OF this] show False by simp
  qed
  show ?thesis
  proof (cases "t_is_completed task")
    case True
    let ?db0 = "upd_task i (\<lambda>t. t\<lparr>t_is_completed := False\<rparr>) db"
    have inv0: "db_invariant ?db0" by (rule invariant_reopen_task[OF inv])
    have eq: "db' = ?db0\<lparr>subtasks := subtasks ?db0 @ [new]\<rparr>"
      using True by (simp add: db')
    let ?g = "\<lambda>t. if t_id t = i then t\<lparr>t_is_completed := False\<rparr> else t"
    have T: "set (tasks ?db0) = ?g ` set (tasks db)" by simp
    have opened: "\<forall>t \<in> set (tasks ?db0). t_id t = s_task_id new \<longrightarrow> \<not> t_is_completed t"
    proof (intro ballI impI)
      fix t assume t: "t \<in> set (tasks ?db0)" "t_id t = s_task_id new"
      from t(1) obtain t0 where t0: "t0 \<in> set (tasks db)" "t = ?g t0"
        unfolding T by (rule imageE)
      have "t_id t = t_id t0" unfolding t0(2) by simp
      with t(2) new(2) have "t_id t0 = i" by simp
      then have "t = t0\<lparr>t_is_completed := False\<rparr>" unfolding t0(2) by simp
      then show "\<not> t_is_completed t" by simp
    qed
    have fresh0: "s_id new \<notin> s_id ` set (subtasks ?db0)" using fresh by simp
    have key0: "\<forall>s \<in> set (subtasks ?db0). s_task_id s = s_task_id new \<longrightarrow>
                s_order_index s \<noteq> s_order_index new" using key by simp
    have "t_id (task\<lparr>t_is_completed := False\<rparr>) = i" using D by simp
    moreover have "task\<lparr>t_is_completed := False\<rparr> \<in> set (tasks ?db0)"
      using D by (simp add: image_iff) (rule bexI[of _ task], simp_all)
    ultimately have parent0: "s_task_id new \<in> t_id ` set (tasks ?db0)"
      unfolding new(2) by (metis imageI)
    show ?thesis unfolding eq
      by (rule invariant_append_subtask[OF inv0 fresh0 parent0 opened key0])
  next
    case False
    have eq: "db' = db\<lparr>subtasks := subtasks db @ [new]\<rparr>"
      using False by (simp add: db')
    have opened: "\<forall>t \<in> set (tasks db). t_id t = s_task_id new \<longrightarrow> \<not> t_is_completed t"
    proof (intro ballI impI)
      fix t assume t: "t \<in> set (tasks db)" "t_id t = s_task_id new"
      with new(2) D have "t_id t = t_id task" by simp
      with tids t(1) D have "t = task" by (intro same_id_same_row[of t_id "tasks db"]) simp_all
      with False show "\<not> t_is_completed t" by simp
    qed
    have parent: "s_task_id new \<in> t_id ` set (tasks db)"
      unfolding new(2) using D by (metis imageI)
    show ?thesis unfolding eq
      by (rule invariant_append_subtask[OF inv fresh parent opened key])
  qed
qed

lemma swap_keeps_unique:
  fixes xs :: "'a list" and idf sc :: "'a \<Rightarrow> int" and key :: "'a \<Rightarrow> int option"
    and setk :: "int option \<Rightarrow> 'a \<Rightarrow> 'a"
  assumes ids: "distinct (map idf xs)"
    and uniq: "\<forall>a\<in>set xs. \<forall>b\<in>set xs.
                 sc a = sc b \<and> key a = key b \<and> key a \<noteq> None \<longrightarrow> idf a = idf b"
    and x: "x \<in> set xs" and p: "p \<in> set xs" and scope: "sc x = sc p"
    and key_set: "\<And>k t. key (setk k t) = k"
    and id_set: "\<And>k t. idf (setk k t) = idf t"
    and sc_set: "\<And>k t. sc (setk k t) = sc t"
  defines "sw \<equiv> \<lambda>t. if idf t = idf x then setk (key p) t
                     else if idf t = idf p then setk (key x) t else t"
  shows "\<forall>a\<in>set (map sw xs). \<forall>b\<in>set (map sw xs).
           sc a = sc b \<and> key a = key b \<and> key a \<noteq> None \<longrightarrow> idf a = idf b"
proof (intro ballI impI)
  fix a b
  assume a: "a \<in> set (map sw xs)" and b: "b \<in> set (map sw xs)"
    and h: "sc a = sc b \<and> key a = key b \<and> key a \<noteq> None"
  define src where "src = (\<lambda>t. if t = x then p else if t = p then x else t)"
  have row: "t = x" if "t \<in> set xs" "idf t = idf x" for t
    using ids that(1) x that(2) by (rule same_id_same_row)
  have row': "t = p" if "t \<in> set xs" "idf t = idf p" for t
    using ids that(1) p that(2) by (rule same_id_same_row)
  have src_in: "src t \<in> set xs" if "t \<in> set xs" for t
    using that x p by (simp add: src_def)
  have src_inv: "src (src t) = t" for t by (simp add: src_def)
  have sw_key: "key (sw t) = key (src t)" if "t \<in> set xs" for t
  proof -
    consider "t = x" | "t = p" "t \<noteq> x" | "t \<noteq> x" "t \<noteq> p" by blast
    then show ?thesis
    proof cases
      case 1
      then show ?thesis by (simp add: sw_def src_def key_set)
    next
      case 2
      then have "idf p \<noteq> idf x" using row[OF p] by auto
      with 2 show ?thesis by (simp add: sw_def src_def key_set)
    next
      case 3
      then have "idf t \<noteq> idf x" "idf t \<noteq> idf p" using row[OF that] row'[OF that] by auto
      with 3 show ?thesis by (simp add: sw_def src_def)
    qed
  qed
  have sw_sc: "sc (sw t) = sc (src t)" if "t \<in> set xs" for t
  proof -
    have "sc (sw t) = sc t" by (simp add: sw_def sc_set)
    moreover have "sc (src t) = sc t" using scope by (simp add: src_def)
    ultimately show ?thesis by simp
  qed
  have sw_id: "idf (sw t) = idf t" for t by (simp add: sw_def id_set)
  from a obtain a0 where a0: "a0 \<in> set xs" "a = sw a0" by auto
  from b obtain b0 where b0: "b0 \<in> set xs" "b = sw b0" by auto
  from h have h1: "sc a = sc b" by (rule conjunct1)
  from h have h2: "key a = key b" by (elim conjE)
  from h have h3: "key a \<noteq> None" by (elim conjE)
  have c1: "sc (src a0) = sc (src b0)"
    using h1 sw_sc[OF a0(1)] sw_sc[OF b0(1)] unfolding a0(2) b0(2) by simp
  have c2: "key (src a0) = key (src b0)"
    using h2 sw_key[OF a0(1)] sw_key[OF b0(1)] unfolding a0(2) b0(2) by simp
  have c3: "key (src a0) \<noteq> None"
    using h3 sw_key[OF a0(1)] unfolding a0(2) by simp
  from uniq[rule_format, OF src_in[OF a0(1)] src_in[OF b0(1)] conjI[OF c1 conjI[OF c2 c3]]]
  have "idf (src a0) = idf (src b0)" .
  with ids src_in[OF a0(1)] src_in[OF b0(1)] have "src a0 = src b0"
    by (rule same_id_same_row)
  then have "src (src a0) = src (src b0)" by simp
  then have "a0 = b0" unfolding src_inv .
  then show "idf a = idf b" unfolding a0(2) b0(2) by simp
qed

lemma map_if2_same:
  assumes "\<And>x. T (f x) = T x" "\<And>x. T (g x) = T x"
  shows "map (\<lambda>x. T (if c x then f x else if d x then g x else x)) xs = map T xs"
  using assms by (induction xs) auto

lemma invariant_swap_tasks:
  assumes inv: "db_invariant db"
    and x: "x \<in> set (tasks db)" and p: "p \<in> set (tasks db)"
    and scope: "t_user_id x = t_user_id p"
  shows "db_invariant
           (db\<lparr>tasks := map (\<lambda>t. if t_id t = t_id x then t\<lparr>t_order_index := t_order_index p\<rparr>
                                   else if t_id t = t_id p
                                   then t\<lparr>t_order_index := t_order_index x\<rparr> else t)
                               (tasks db)\<rparr>)"
proof -
  let ?sw = "\<lambda>t::task. if t_id t = t_id x then t\<lparr>t_order_index := t_order_index p\<rparr>
                   else if t_id t = t_id p then t\<lparr>t_order_index := t_order_index x\<rparr> else t"
  let ?db' = "db\<lparr>tasks := map ?sw (tasks db)\<rparr>"
  from inv have k: "keys_consistent db" and t: "task_keys_unique db"
    and s: "subtask_keys_unique db" and f: "flags_consistent db"
    by (simp_all add: db_invariant_def)
  from k have tids: "distinct (map t_id (tasks db))" by (simp add: keys_consistent_def)
  have kc: "keys_consistent ?db' = keys_consistent db"
    by (rule keys_consistent_cong) (simp_all add: comp_def map_if2_same)
  have fc: "flags_consistent ?db' = flags_consistent db"
    by (rule flags_consistent_cong) (simp_all add: comp_def map_if2_same)
  have T: "tasks ?db' = map ?sw (tasks db)" by simp
  have "task_keys_unique ?db'"
    unfolding task_keys_unique_def T
    by (rule swap_keeps_unique[where idf = t_id and sc = t_user_id and key = t_order_index
        and setk = "\<lambda>k (t::task). t\<lparr>t_order_index := k\<rparr>" and xs = "tasks db" and x = x and p = p,
        OF tids t[unfolded task_keys_unique_def] x p scope]) simp_all
  moreover have "subtask_keys_unique ?db'"
    by (rule subtask_keys_unique_subset[OF s]) simp
  ultimately show ?thesis using k f kc fc by (simp add: db_invariant_def)
qed

lemma invariant_swap_subtasks:
  assumes inv: "db_invariant db"
    and x: "x \<in> set (subtasks db)" and p: "p \<in> set (subtasks db)"
    and scope: "s_task_id x = s_task_id p"
  shows "db_invariant
           (db\<lparr>subtasks := map (\<lambda>s. if s_id s = s_id x then s\<lparr>s_order_index := s_order_index p\<rparr>
                                   else if s_id s = s_id p
                                   then s\<lparr>s_order_index := s_order_index x\<rparr> else s)
                               (subtasks db)\<rparr>)"
proof -
  let ?sw = "\<lambda>s::subtask. if s_id s = s_id x then s\<lparr>s_order_index := s_order_index p\<rparr>
                   else if s_id s = s_id p then s\<lparr>s_order_index := s_order_index x\<rparr> else s"
  let ?db' = "db\<lparr>subtasks := map ?sw (subtasks db)\<rparr>"
  from inv have k: "keys_consistent db" and t: "task_keys_unique db"
    and s: "subtask_keys_unique db" and f: "flags_consistent db"
    by (simp_all add: db_invariant_def)
  from k have sids: "distinct (map s_id (subtasks db))" by (simp add: keys_consistent_def)
  have kc: "keys_consistent ?db' = keys_consistent db"
    by (rule keys_consistent_cong) (simp_all add: comp_def map_if2_same)
  have fc: "flags_consistent ?db' = flags_consistent db"
    by (rule flags_consistent_cong) (simp_all add: comp_def map_if2_same)
  have T: "subtasks ?db' = map ?sw (subtasks db)" by simp
  have "subtask_keys_unique ?db'"
    unfolding subtask_keys_unique_def T
    by (rule swap_keeps_unique[where idf = s_id and sc = s_task_id and key = s_order_index
        and setk = "\<lambda>k (s::subtask). s\<lparr>s_order_index := k\<rparr>" and xs = "subtasks db"
        and x = x and p = p,
        OF sids s[unfolded subtask_keys_unique_def] x p scope]) simp_all
  moreover have "task_keys_unique ?db'"
    by (rule task_keys_unique_subset[OF t]) simp
  ultimately show ?thesis using k f kc fc by (simp add: db_invariant_def)
qed

section \<open>The concrete states\<close>

text \<open>The first registration on the empty database gives the concrete state.\<close>

lemmas demo_defs = demo_db_def sample_tasks_def sample_subtasks_def sample_categories_def

lemma register_demo:
  "register (Some ''amina'') (Some ''secret'') (Some ''secret'') ''pbkdf2'' empty_db =
   Inr (demo_db, None)"
  by (simp add: register_def empty_db_def demo_defs next_id_def sql_max_def Let_def)

lemma reachable_demo: "reachable lib demo_db"
  using reachable.registered[OF reachable.created, of lib "Some ''amina''" "Some ''secret''"
      "Some ''secret''" "''pbkdf2''"]
  by (simp add: register_demo stored_after_def)

lemma register_demo2:
  "register (Some ''bilal'') (Some ''hunter2'') (Some ''hunter2'') ''scrypt'' demo_db =
   Inr (demo_db2, None)"
  by (simp add: register_def demo_defs demo_db2_def next_id_def sql_max_def Let_def)

lemma reachable_demo2: "reachable lib demo_db2"
  using reachable.registered[OF reachable_demo, of lib "Some ''bilal''" "Some ''hunter2''"
      "Some ''hunter2''" "''scrypt''"]
  by (simp add: register_demo2 stored_after_def)


lemma py_int_abc: "py_int lib ''abc'' = None"
  by (simp add: py_int_def is_ascii_def ascii_int_def strip_def is_space_def digits_def
      is_digit_def digit_val_def)

lemma decimal_text_2: "text_as_integer demo_library ''2'' = Some 2"
  by (simp add: demo_library_def decimal_text_def is_digit_def digit_val_def)

section \<open>Completion propagation\<close>

text \<open>
  C1. For a subtask of the user, \<open>toggle_subtask\<close> succeeds without a message, flips
  the completion flag of that subtask (the row with that key) and of no other, and sets
  the flag of the parent task, which exists and has at least one subtask, to true if and
  only if every subtask of the parent, the toggled one included, is complete afterwards.
  No other task is changed.
\<close>

theorem toggle_subtask_parent_flag:
  assumes st: "own_subtask uid subtask_id db = Some st"
  shows "\<exists>db'. toggle_subtask uid subtask_id db = Inr (db', None) \<and>
           subtasks db' =
             map (\<lambda>s. if s_id s = subtask_id
                       then s\<lparr>s_is_completed := \<not> s_is_completed st\<rparr> else s) (subtasks db) \<and>
           (\<exists>s' \<in> set (subtasks db'). s_task_id s' = s_task_id st) \<and>
           (\<exists>t \<in> set (tasks db'). t_id t = s_task_id st) \<and>
           (\<forall>t \<in> set (tasks db'). t_id t = s_task_id st \<longrightarrow>
              t_is_completed t =
                (\<forall>s' \<in> set (subtasks db'). s_task_id s' = s_task_id st \<longrightarrow> s_is_completed s')) \<and>
           tasks db' =
             map (\<lambda>t. if t_id t = s_task_id st
                       then t\<lparr>t_is_completed :=
                              (\<forall>s' \<in> set (subtasks db').
                                  s_task_id s' = s_task_id st \<longrightarrow> s_is_completed s')\<rparr>
                       else t) (tasks db)"
proof -
  note D = own_subtaskD[OF st]
  let ?db1 = "upd_subtask subtask_id (\<lambda>s. s\<lparr>s_is_completed := \<not> s_is_completed st\<rparr>) db"
  define b where
    "b = (\<forall>s' \<in> set (subtasks ?db1). s_task_id s' = s_task_id st \<longrightarrow> s_is_completed s')"
  define db' where "db' = upd_task (s_task_id st) (\<lambda>t. t\<lparr>t_is_completed := b\<rparr>) ?db1"
  have run: "toggle_subtask uid subtask_id db = Inr (db', None)"
    using st unfolding toggle_subtask_def Let_def counts_equal_iff b_def db'_def
    by (simp add: flag_branches)
  have subs: "subtasks db' = subtasks ?db1" by (simp add: db'_def upd_task_def)
  have 1: "subtasks db' = map (\<lambda>s. if s_id s = subtask_id
                       then s\<lparr>s_is_completed := \<not> s_is_completed st\<rparr> else s) (subtasks db)"
    by (simp add: subs upd_subtask_def)
  have "st\<lparr>s_is_completed := \<not> s_is_completed st\<rparr> \<in> set (subtasks db')"
    unfolding 1 using D by (auto simp: image_iff intro!: bexI[of _ st])
  then have 2: "\<exists>s' \<in> set (subtasks db'). s_task_id s' = s_task_id st"
    by (intro bexI[of _ "st\<lparr>s_is_completed := \<not> s_is_completed st\<rparr>"]) simp_all
  from D obtain t where t: "t \<in> set (tasks db)" "t_id t = s_task_id st" by blast
  have "t\<lparr>t_is_completed := b\<rparr> \<in> set (tasks db')"
    using t by (auto simp: db'_def upd_task_def upd_subtask_def image_iff intro!: bexI[of _ t])
  then have 3: "\<exists>t \<in> set (tasks db'). t_id t = s_task_id st"
    using t by (intro bexI[of _ "t\<lparr>t_is_completed := b\<rparr>"]) simp_all
  have 4: "\<forall>t \<in> set (tasks db'). t_id t = s_task_id st \<longrightarrow> t_is_completed t = b"
    by (auto simp: db'_def upd_task_def)
  have 5: "tasks db' = map (\<lambda>t. if t_id t = s_task_id st then t\<lparr>t_is_completed := b\<rparr> else t)
                         (tasks db)"
    by (simp add: db'_def upd_task_def upd_subtask_def)
  show ?thesis
    apply (rule exI[of _ db'])
    apply (intro conjI)
         apply (rule run)
        apply (rule 1)
       apply (rule 2)
      apply (rule 3)
    using 4 unfolding b_def subs[symmetric] apply assumption
    using 5 unfolding b_def subs[symmetric] apply assumption
    done
qed

text \<open>
  In the concrete state "Team meeting" (task 2) has one open subtask (1) and one complete
  subtask: completing the open one completes the task and touches no other task.
\<close>

theorem toggle_subtask_parent_flag_witness:
  "own_subtask 1 1 demo_db = Some (hd (subtasks demo_db)) \<and>
   map s_is_completed (subtasks (stored_after demo_db (toggle_subtask 1 1 demo_db))) =
     [True, True, True] \<and>
   map t_is_completed (tasks (stored_after demo_db (toggle_subtask 1 1 demo_db))) =
     [False, True, True, False] \<and>
   (\<exists>db'. toggle_subtask 1 1 demo_db = Inr (db', None))"
proof -
  have own: "own_subtask 1 1 demo_db = Some (hd (subtasks demo_db))"
    by (simp add: own_subtask_def demo_defs)
  from toggle_subtask_parent_flag[OF own] obtain db' where
    run: "toggle_subtask 1 1 demo_db = Inr (db', None)"
    and s: "subtasks db' =
             map (\<lambda>s. if s_id s = 1
                       then s\<lparr>s_is_completed := \<not> s_is_completed (hd (subtasks demo_db))\<rparr>
                       else s) (subtasks demo_db)"
    and t: "tasks db' =
             map (\<lambda>t. if t_id t = s_task_id (hd (subtasks demo_db))
                       then t\<lparr>t_is_completed :=
                              (\<forall>s' \<in> set (subtasks db').
                                  s_task_id s' = s_task_id (hd (subtasks demo_db)) \<longrightarrow>
                                  s_is_completed s')\<rparr>
                       else t) (tasks demo_db)"
    by blast
  have s': "map s_is_completed (subtasks db') = [True, True, True]"
    unfolding s by (simp add: demo_defs)
  have t': "map t_is_completed (tasks db') = [False, True, True, False]"
    unfolding t s by (simp add: demo_defs)
  show ?thesis using own run s' t' by (simp add: stored_after_def)
qed

text \<open>
  C2. For a task of the user, \<open>toggle_task\<close> succeeds without a message and flips the
  flag of the task. When the new value is complete, every subtask of the task is complete
  afterwards (and, the subtask keys being distinct, exactly the subtasks of this task were
  set); when the new value is incomplete the subtask table is unchanged; and with no
  subtasks only the flag of the task changes.
\<close>

theorem toggle_task_cascade:
  assumes task: "own_task uid task_id db = Some task"
  shows "\<exists>db'. toggle_task uid task_id db = Inr (db', None) \<and>
           tasks db' =
             map (\<lambda>t. if t_id t = task_id
                       then t\<lparr>t_is_completed := \<not> t_is_completed task\<rparr> else t) (tasks db) \<and>
           users db' = users db \<and> categories db' = categories db \<and>
           (\<not> t_is_completed task \<longrightarrow>
              (\<forall>s \<in> set (subtasks db'). s_task_id s = task_id \<longrightarrow> s_is_completed s) \<and>
              (distinct (map s_id (subtasks db)) \<longrightarrow>
                 subtasks db' =
                   map (\<lambda>s. if s_task_id s = task_id then s\<lparr>s_is_completed := True\<rparr> else s)
                       (subtasks db))) \<and>
           (t_is_completed task \<longrightarrow> subtasks db' = subtasks db) \<and>
           (subtask_count db task_id = 0 \<longrightarrow> subtasks db' = subtasks db)"
proof -
  note D = own_taskD[OF task]
  let ?db1 = "upd_task task_id (\<lambda>t. t\<lparr>t_is_completed := \<not> t_is_completed task\<rparr>) db"
  let ?ids = "s_id ` set (task_subtasks db task_id)"
  define db' where "db' = (if \<not> t_is_completed task \<and> subtask_count db task_id > 0
                    then ?db1\<lparr>subtasks := map (\<lambda>s. if s_id s \<in> ?ids
                                                   then s\<lparr>s_is_completed := True\<rparr> else s)
                                              (subtasks db)\<rparr>
                    else ?db1)"
  have run: "toggle_task uid task_id db = Inr (db', None)"
    using task by (auto simp: toggle_task_def Let_def fold_set_flag has_subtasks_def db'_def)
  have 1: "tasks db' = map (\<lambda>t. if t_id t = task_id
                       then t\<lparr>t_is_completed := \<not> t_is_completed task\<rparr> else t) (tasks db)"
    by (simp add: db'_def)
  have 2: "users db' = users db \<and> categories db' = categories db"
    by (simp add: db'_def)
  have 3: "subtasks db' = subtasks db" if "t_is_completed task"
    using that by (simp add: db'_def)
  have 4: "subtasks db' = subtasks db" if "subtask_count db task_id = 0"
    using that by (simp add: db'_def)
  have 5: "\<forall>s \<in> set (subtasks db'). s_task_id s = task_id \<longrightarrow> s_is_completed s"
    if "\<not> t_is_completed task"
  proof (cases "subtask_count db task_id > 0")
    case True
    then show ?thesis using that by (auto simp: db'_def task_subtasks_def)
  next
    case False
    then have "\<forall>s \<in> set (subtasks db). s_task_id s \<noteq> task_id"
      by (auto simp: subtask_count_def task_subtasks_def filter_empty_conv)
    then show ?thesis using False by (simp add: db'_def)
  qed
  have 6: "subtasks db' =
             map (\<lambda>s. if s_task_id s = task_id then s\<lparr>s_is_completed := True\<rparr> else s)
                 (subtasks db)"
    if nc: "\<not> t_is_completed task" and dist: "distinct (map s_id (subtasks db))"
  proof (cases "subtask_count db task_id > 0")
    case True
    have "map (\<lambda>s. if s_id s \<in> ?ids then s\<lparr>s_is_completed := True\<rparr> else s) (subtasks db) =
          map (\<lambda>s. if s_task_id s = task_id then s\<lparr>s_is_completed := True\<rparr> else s) (subtasks db)"
      by (rule map_cong_set) (simp add: task_subtasks_def ids_of_filter[OF dist])
    then show ?thesis using True nc by (simp add: db'_def)
  next
    case False
    then have none: "\<forall>s \<in> set (subtasks db). s_task_id s \<noteq> task_id"
      by (auto simp: subtask_count_def task_subtasks_def filter_empty_conv)
    have "map (\<lambda>s. if s_task_id s = task_id then s\<lparr>s_is_completed := True\<rparr> else s) (subtasks db) =
          map (\<lambda>s. s) (subtasks db)"
      by (rule map_cong_set) (simp add: none)
    then show ?thesis using False by (simp add: db'_def)
  qed
  show ?thesis
    apply (rule exI[of _ db'])
    apply (intro conjI impI)
    using run 1 2 3 4 5 6 apply blast+
    done
qed

text \<open>
  Completing "Team meeting" (task 2) in the concrete state completes both of its
  subtasks; "Read documentation" (task 4) has no subtask and only its own flag changes.
\<close>

theorem toggle_task_cascade_witness:
  "own_task 1 2 demo_db = Some (tasks demo_db ! 1) \<and>
   \<not> t_is_completed (tasks demo_db ! 1) \<and> distinct (map s_id (subtasks demo_db)) \<and>
   map t_is_completed (tasks (stored_after demo_db (toggle_task 1 2 demo_db))) =
     [False, True, True, False] \<and>
   map s_is_completed (subtasks (stored_after demo_db (toggle_task 1 2 demo_db))) =
     [True, True, True] \<and>
   (\<exists>db'. toggle_task 1 2 demo_db = Inr (db', None))"
proof -
  have own: "own_task 1 2 demo_db = Some (tasks demo_db ! 1)"
    by (simp add: own_task_def demo_defs)
  have open_task: "\<not> t_is_completed (tasks demo_db ! 1)" by (simp add: demo_defs)
  have dist: "distinct (map s_id (subtasks demo_db))" by (simp add: demo_defs)
  from toggle_task_cascade[OF own] obtain db' where
    run: "toggle_task 1 2 demo_db = Inr (db', None)"
    and t: "tasks db' =
             map (\<lambda>t. if t_id t = 2
                       then t\<lparr>t_is_completed := \<not> t_is_completed (tasks demo_db ! 1)\<rparr> else t)
                 (tasks demo_db)"
    and s: "\<not> t_is_completed (tasks demo_db ! 1) \<longrightarrow>
              (\<forall>s \<in> set (subtasks db'). s_task_id s = 2 \<longrightarrow> s_is_completed s) \<and>
              (distinct (map s_id (subtasks demo_db)) \<longrightarrow>
                 subtasks db' =
                   map (\<lambda>s. if s_task_id s = 2 then s\<lparr>s_is_completed := True\<rparr> else s)
                       (subtasks demo_db))"
    by blast
  from s open_task dist have s1: "subtasks db' =
                   map (\<lambda>s. if s_task_id s = 2 then s\<lparr>s_is_completed := True\<rparr> else s)
                       (subtasks demo_db)" by blast
  have t': "map t_is_completed (tasks db') = [False, True, True, False]"
    unfolding t by (simp add: demo_defs)
  have s': "map s_is_completed (subtasks db') = [True, True, True]"
    unfolding s1 by (simp add: demo_defs)
  show ?thesis using own open_task dist run t' s' by (simp add: stored_after_def)
qed

text \<open>
  C8. For a task of the user and a description that is not empty, \<open>add_subtask\<close>
  succeeds without a message, appends one incomplete subtask to the task, and the task as
  the handler's own lookup finds it afterwards is the task it found before with the
  completion flag false: a complete task is reopened in the same operation, an incomplete
  one is left as it was, and so is every other task.
\<close>

theorem add_subtask_reopens_task:
  assumes task: "own_task uid task_id db = Some task" and d: "d \<noteq> []"
  shows "\<exists>db' new_subtask.
           add_subtask uid task_id (Some d) db = Inr (db', None) \<and>
           subtasks db' = subtasks db @ [new_subtask] \<and>
           s_task_id new_subtask = task_id \<and> s_description new_subtask = d \<and>
           \<not> s_is_completed new_subtask \<and>
           own_task uid task_id db' = Some (task\<lparr>t_is_completed := False\<rparr>) \<and>
           [t \<leftarrow> tasks db'. t_id t \<noteq> task_id] = [t \<leftarrow> tasks db. t_id t \<noteq> task_id] \<and>
           (\<not> t_is_completed task \<longrightarrow> tasks db' = tasks db)"
proof -
  define new_subtask where "new_subtask =
     \<lparr>s_id = next_id (map s_id (subtasks db)), s_description = d, s_is_completed = False,
      s_order_index = Some (or_zero (sql_max_col (map s_order_index (task_subtasks db task_id))) + 1),
      s_task_id = task_id\<rparr>"
  let ?db1 = "db\<lparr>subtasks := subtasks db @ [new_subtask]\<rparr>"
  define db' where "db' = (if t_is_completed task
                    then upd_task task_id (\<lambda>t. t\<lparr>t_is_completed := False\<rparr>) ?db1 else ?db1)"
  have run: "add_subtask uid task_id (Some d) db = Inr (db', None)"
    using task d by (auto simp: add_subtask_def Let_def new_subtask_def db'_def)
  have own1: "own_task uid task_id ?db1 = Some task"
    using task by (simp add: own_task_def)
  have 1: "subtasks db' = subtasks db @ [new_subtask]" by (simp add: db'_def)
  have 2: "own_task uid task_id db' = Some (task\<lparr>t_is_completed := False\<rparr>)"
  proof (cases "t_is_completed task")
    case True
    then show ?thesis using own_task_upd_task[OF _ _ own1, of "\<lambda>t. t\<lparr>t_is_completed := False\<rparr>"]
      by (simp add: db'_def)
  next
    case False
    then have "task\<lparr>t_is_completed := False\<rparr> = task" by simp
    then show ?thesis using own1 False by (simp add: db'_def)
  qed
  have 3: "\<not> t_is_completed task \<longrightarrow> tasks db' = tasks db" by (simp add: db'_def)
  have 4: "s_task_id new_subtask = task_id \<and> s_description new_subtask = d \<and>
           \<not> s_is_completed new_subtask" by (simp add: new_subtask_def)
  have 5: "[t \<leftarrow> tasks db'. t_id t \<noteq> task_id] = [t \<leftarrow> tasks db. t_id t \<noteq> task_id]"
  proof -
    have "map (\<lambda>t. if t_id t = task_id then t\<lparr>t_is_completed := False\<rparr> else t)
            [t \<leftarrow> tasks db. t_id t \<noteq> task_id] = [t \<leftarrow> tasks db. t_id t \<noteq> task_id]"
      by (rule map_idI) simp
    then show ?thesis by (simp add: db'_def upd_task_def filter_map comp_def)
  qed
  show ?thesis
    apply (rule exI[of _ db'], rule exI[of _ new_subtask])
    using run 1 2 3 4 5 apply blast
    done
qed

text \<open>
  "Work on Project X" (task 3) is complete in the concrete state; a new subtask reopens it.
\<close>

theorem add_subtask_reopens_task_witness:
  "own_task 1 3 demo_db = Some (tasks demo_db ! 2) \<and> t_is_completed (tasks demo_db ! 2) \<and>
   ''Write tests'' \<noteq> [] \<and>
   own_task 1 3 (stored_after demo_db (add_subtask 1 3 (Some ''Write tests'') demo_db)) =
     Some ((tasks demo_db ! 2)\<lparr>t_is_completed := False\<rparr>) \<and>
   length (subtasks (stored_after demo_db (add_subtask 1 3 (Some ''Write tests'') demo_db))) = 4 \<and>
   (\<exists>db'. add_subtask 1 3 (Some ''Write tests'') demo_db = Inr (db', None))"
proof -
  have own: "own_task 1 3 demo_db = Some (tasks demo_db ! 2)"
    by (simp add: own_task_def demo_defs)
  have complete: "t_is_completed (tasks demo_db ! 2)" by (simp add: demo_defs)
  have d: "''Write tests'' \<noteq> []" by simp
  from add_subtask_reopens_task[OF own d] obtain db' new_subtask where
    run: "add_subtask 1 3 (Some ''Write tests'') demo_db = Inr (db', None)"
    and s: "subtasks db' = subtasks demo_db @ [new_subtask]"
    and t: "own_task 1 3 db' = Some ((tasks demo_db ! 2)\<lparr>t_is_completed := False\<rparr>)"
    by blast
  have len: "length (subtasks db') = 4" unfolding s by (simp add: demo_defs)
  show ?thesis using own complete run t len by (simp add: stored_after_def)
qed

section \<open>Resetting\<close>

text \<open>
  C10. With distinct primary keys, \<open>reset_all_tasks\<close> returns the database in which
  the completion flag of every task of the acting user and of every subtask of those
  tasks is false, and every other field, every other row and the other two tables are as
  before.
\<close>

theorem reset_all_tasks_resets_flags:
  assumes "distinct (map t_id (tasks db))" and "distinct (map s_id (subtasks db))"
  shows "reset_all_tasks uid db =
         Inr (db\<lparr>tasks := map (\<lambda>t. if t_user_id t = uid
                                    then t\<lparr>t_is_completed := False\<rparr> else t) (tasks db),
                 subtasks := map (\<lambda>s. if \<exists>t \<in> set (tasks db).
                                             t_id t = s_task_id s \<and> t_user_id t = uid
                                       then s\<lparr>s_is_completed := False\<rparr> else s)
                                 (subtasks db)\<rparr>, None)"
  by (rule reset_all_tasks_eq[OF assms])

text \<open>
  With two registered users, a reset by the first leaves the complete task and the two
  complete subtasks of the second as they are.
\<close>

theorem reset_all_tasks_resets_flags_witness:
  "map t_is_completed (tasks (stored_after demo_db2 (reset_all_tasks 1 demo_db2))) =
     [False, False, False, False, False, False, True, False] \<and>
   map s_is_completed (subtasks (stored_after demo_db2 (reset_all_tasks 1 demo_db2))) =
     [False, False, False, False, True, True]"
  using reset_all_tasks_resets_flags[of demo_db2 1]
  by (simp add: stored_after_def demo_db2_def sample_tasks_def sample_subtasks_def)

section \<open>The order key of a new row\<close>








section \<open>The display order\<close>

lemma task_sort_key_less:
  "(task_sort_key lib a < task_sort_key lib b) =
   (completion_key a < completion_key b \<or>
    completion_key a = completion_key b \<and>
    (order_key a < order_key b \<or>
     order_key a = order_key b \<and>
     (block_key a < block_key b \<or>
      block_key a = block_key b \<and>
      (priority_key a < priority_key b \<or>
       priority_key a = priority_key b \<and> name_key lib a < name_key lib b))))"
proof -
  have le_eq: "(x < y \<or> x \<le> y \<and> P) = (x < y \<or> x = y \<and> P)" for x y :: int and P
    by auto
  show ?thesis by (simp add: task_sort_key_def le_eq)
qed

lemma sorted_positions:
  assumes "sorted (map f xs)" "i < length xs" "j < length xs" "f (xs ! j) < f (xs ! i)"
  shows "j < i"
proof (rule ccontr)
  assume "\<not> j < i"
  then have "i \<le> j" by simp
  with assms(1,3) have "map f xs ! i \<le> map f xs ! j"
    by (intro sorted_nth_mono) simp_all
  with assms(2,3,4) show False by simp
qed

lemma null_key_after:
  assumes "t_order_index a = None" "t_order_index b = Some k" "k < 999"
    "t_is_completed a = t_is_completed b"
  shows "task_sort_key lib b < task_sort_key lib a"
  using assms by (simp add: task_sort_key_less completion_key_def order_key_def)

text \<open>Lower-casing a character, read through the character codes.\<close>

lemma char_eq_code: "(x = y) = (of_char x = (of_char y :: nat))" for x y :: char
  by simp

lemma of_char_lower:
  "of_char (ascii_lower_char c) =
     (if 65 \<le> (of_char c :: nat) \<and> (of_char c :: nat) \<le> 90
      then of_char c + 32 else (of_char c :: nat))"
  by (simp add: ascii_lower_char_def less_eq_char_def)

lemma lower_char_eq_iff: "(ascii_lower_char c = ascii_lower_char d) = same_letter c d"
  unfolding char_eq_code[of "ascii_lower_char c"] of_char_lower same_letter_def
    less_eq_char_def char_eq_code[of c d]
  by auto

lemma lower_char_idem: "ascii_lower_char (ascii_lower_char c) = ascii_lower_char c"
  unfolding char_eq_code[of "ascii_lower_char (ascii_lower_char c)"] of_char_lower
  by auto

lemma lower_char_small: "\<not> (CHR ''A'' \<le> ascii_lower_char c \<and> ascii_lower_char c \<le> CHR ''Z'')"
  unfolding less_eq_char_def of_char_lower by auto

lemma ascii_lower_eq_iff:
  "(ascii_lower xs = ascii_lower ys) = list_all2 same_letter xs ys"
proof -
  have "(map ascii_lower_char xs = map ascii_lower_char ys) =
        list_all2 (\<lambda>x y. ascii_lower_char x = ascii_lower_char y) xs ys"
    by (simp add: list_all2_map1 list_all2_map2 list.rel_eq[symmetric] del: list.rel_eq)
  then show ?thesis by (simp add: ascii_lower_def lower_char_eq_iff)
qed

lemma ascii_lower_same_letter: "list_all2 same_letter xs (ascii_lower xs)"
  by (simp add: ascii_lower_def list_all2_map2 list_all2_same lower_char_eq_iff[symmetric]
      lower_char_idem)

text \<open>
  C4, as the code has it. The result of \<open>sort_tasks\<close> is a rearrangement of its
  input, ascending in the key, with tasks of equal key in input order. The key is
  compared lexicographically: completion (0 for incomplete, 1 for complete), then the
  order key, where a task without one counts as 999, then the time block rank, the
  priority rank, and last the description without regard to case: the name keys of two
  ASCII descriptions are equal exactly when the descriptions differ at most in the case
  of their letters, and the name key is the description with every capital replaced by
  its small letter (for a description with a character outside ASCII it is what
  \<open>str.lower\<close> returns). A task without an order key therefore comes after every task
  of its completion cohort whose order key is below 999.
\<close>

theorem sort_tasks_display_order:
  "mset (sort_tasks lib ts) = mset ts \<and>
   sorted (map (task_sort_key lib) (sort_tasks lib ts)) \<and>
   (\<forall>k. filter (\<lambda>t. task_sort_key lib t = k) (sort_tasks lib ts) =
        filter (\<lambda>t. task_sort_key lib t = k) ts) \<and>
   ((task_sort_key lib a < task_sort_key lib b) =
    (completion_key a < completion_key b \<or>
     completion_key a = completion_key b \<and>
     (order_key a < order_key b \<or>
      order_key a = order_key b \<and>
      (block_key a < block_key b \<or>
       block_key a = block_key b \<and>
       (priority_key a < priority_key b \<or>
        priority_key a = priority_key b \<and> name_key lib a < name_key lib b))))) \<and>
   completion_key a = (if t_is_completed a then 1 else 0) \<and>
   order_key a = (case t_order_index a of Some k \<Rightarrow> k | None \<Rightarrow> 999) \<and>
   (t_time_block a = Some ''morning'' \<longrightarrow> block_key a = 1) \<and>
   (t_time_block a = Some ''afternoon'' \<longrightarrow> block_key a = 2) \<and>
   (t_time_block a = Some ''evening'' \<longrightarrow> block_key a = 3) \<and>
   (t_time_block a = Some ''any'' \<longrightarrow> block_key a = 4) \<and>
   (t_priority a = Some ''high'' \<longrightarrow> priority_key a = 1) \<and>
   (t_priority a = Some ''medium'' \<longrightarrow> priority_key a = 2) \<and>
   (t_priority a = Some ''low'' \<longrightarrow> priority_key a = 3) \<and>
   (list_all is_ascii (t_description a) \<and> list_all is_ascii (t_description b) \<longrightarrow>
      (name_key lib a = name_key lib b) =
        list_all2 same_letter (t_description a) (t_description b)) \<and>
   (list_all is_ascii (t_description a) \<longrightarrow>
      list_all2 same_letter (t_description a) (name_key lib a) \<and>
      (\<forall>c \<in> set (name_key lib a). \<not> (CHR ''A'' \<le> c \<and> c \<le> CHR ''Z''))) \<and>
   (\<not> list_all is_ascii (t_description a) \<longrightarrow>
      name_key lib a = str_lower lib (t_description a)) \<and>
   (\<forall>i j k. i < length ts \<and> j < length ts \<and>
       sort_tasks lib ts ! i = a \<and> sort_tasks lib ts ! j = b \<and>
       t_order_index a = None \<and> t_order_index b = Some k \<and> k < 999 \<and>
       t_is_completed a = t_is_completed b \<longrightarrow> j < i)"
proof (intro conjI allI impI ballI)
  show "mset (sort_tasks lib ts) = mset ts" by (simp add: sort_tasks_def)
  show "sorted (map (task_sort_key lib) (sort_tasks lib ts))" by (simp add: sort_tasks_def)
  show "filter (\<lambda>t. task_sort_key lib t = k) (sort_tasks lib ts) =
        filter (\<lambda>t. task_sort_key lib t = k) ts"
    for k by (simp add: sort_tasks_def sort_key_stable)
  show "(task_sort_key lib a < task_sort_key lib b) =
    (completion_key a < completion_key b \<or>
     completion_key a = completion_key b \<and>
     (order_key a < order_key b \<or>
      order_key a = order_key b \<and>
      (block_key a < block_key b \<or>
       block_key a = block_key b \<and>
       (priority_key a < priority_key b \<or>
        priority_key a = priority_key b \<and> name_key lib a < name_key lib b))))"
    by (rule task_sort_key_less)
  show "completion_key a = (if t_is_completed a then 1 else 0)" by (simp add: completion_key_def)
  show "order_key a = (case t_order_index a of Some k \<Rightarrow> k | None \<Rightarrow> 999)"
    by (simp add: order_key_def)
  show "block_key a = 1" if "t_time_block a = Some ''morning''"
    using that by (simp add: block_key_def dict_get_def time_block_order_def)
  show "block_key a = 2" if "t_time_block a = Some ''afternoon''"
    using that by (simp add: block_key_def dict_get_def time_block_order_def)
  show "block_key a = 3" if "t_time_block a = Some ''evening''"
    using that by (simp add: block_key_def dict_get_def time_block_order_def)
  show "block_key a = 4" if "t_time_block a = Some ''any''"
    using that by (simp add: block_key_def dict_get_def time_block_order_def)
  show "priority_key a = 1" if "t_priority a = Some ''high''"
    using that by (simp add: priority_key_def dict_get_def priority_order_def)
  show "priority_key a = 2" if "t_priority a = Some ''medium''"
    using that by (simp add: priority_key_def dict_get_def priority_order_def)
  show "priority_key a = 3" if "t_priority a = Some ''low''"
    using that by (simp add: priority_key_def dict_get_def priority_order_def)
  show "(name_key lib a = name_key lib b) =
        list_all2 same_letter (t_description a) (t_description b)"
    if "list_all is_ascii (t_description a) \<and> list_all is_ascii (t_description b)"
    using that by (simp add: name_key_def lower_def ascii_lower_eq_iff)
  show "list_all2 same_letter (t_description a) (name_key lib a)"
    if "list_all is_ascii (t_description a)"
    using that by (simp add: name_key_def lower_def ascii_lower_same_letter)
  show "\<not> (CHR ''A'' \<le> c \<and> c \<le> CHR ''Z'')"
    if "list_all is_ascii (t_description a)" and "c \<in> set (name_key lib a)" for c
  proof -
    from that obtain c0 where "c = ascii_lower_char c0"
      by (auto simp: name_key_def lower_def ascii_lower_def)
    then show ?thesis using lower_char_small by simp
  qed
  show "name_key lib a = str_lower lib (t_description a)"
    if "\<not> list_all is_ascii (t_description a)"
    using that by (simp add: name_key_def lower_def)
  show "j < i"
    if h: "i < length ts \<and> j < length ts \<and>
       sort_tasks lib ts ! i = a \<and> sort_tasks lib ts ! j = b \<and>
       t_order_index a = None \<and> t_order_index b = Some k \<and> k < 999 \<and>
       t_is_completed a = t_is_completed b" for i j k
  proof -
    have len: "length (sort_tasks lib ts) = length ts" by (simp add: sort_tasks_def)
    have "task_sort_key lib b < task_sort_key lib a" using h null_key_after by blast
    then have "task_sort_key lib (sort_tasks lib ts ! j) < task_sort_key lib (sort_tasks lib ts ! i)"
      using h by simp
    then show ?thesis
      using sorted_positions[of "task_sort_key lib" "sort_tasks lib ts" i j] h len
      by (simp add: sort_tasks_def)
  qed
qed

lemmas key_defs = task_sort_key_def completion_key_def order_key_def block_key_def
  priority_key_def name_key_def dict_get_def time_block_order_def priority_order_def
  lower_def ascii_lower_def is_ascii_def char_eq_code of_char_lower less_char_def
  less_eq_char_def

lemma sort_example:
  "sort_tasks lib [task_null, task_a, task_b, task_c] = [task_b, task_c, task_null, task_a]"
  by (simp add: sort_tasks_def key_defs task_a_def task_b_def task_c_def task_null_def)

lemma sort_example_case:
  "sort_tasks lib [task_banana, task_apple] = [task_apple, task_banana]"
  by (simp add: sort_tasks_def key_defs task_banana_def task_apple_def)

text \<open>
  The example of the specification, with a task without order key added: incomplete tasks
  by order key, the one without a key after them, the complete task last. And "apple"
  comes before "Banana", which the character codes alone would put first.
\<close>

theorem sort_tasks_display_order_witness:
  "sort_tasks demo_library [task_null, task_a, task_b, task_c] =
     [task_b, task_c, task_null, task_a] \<and>
   t_order_index task_null = None \<and> t_order_index task_b = Some 2 \<and>
   t_is_completed task_null = t_is_completed task_b \<and>
   sorted (map (task_sort_key demo_library) [task_b, task_c, task_null, task_a]) \<and>
   sort_tasks demo_library [task_banana, task_apple] = [task_apple, task_banana] \<and>
   list_all is_ascii (t_description task_banana) \<and>
   list_all2 same_letter (t_description task_banana) (name_key demo_library task_banana) \<and>
   name_key demo_library task_banana = ''banana''"
proof -
  let ?ts = "[task_null, task_a, task_b, task_c]"
  have ex: "sort_tasks demo_library ?ts = [task_b, task_c, task_null, task_a]"
    by (rule sort_example)
  have prem: "t_order_index task_null = None \<and> t_order_index task_b = Some 2 \<and>
    t_is_completed task_null = t_is_completed task_b"
    by (simp add: task_null_def task_b_def)
  have "sorted (map (task_sort_key demo_library) (sort_tasks demo_library ?ts))"
    using sort_tasks_display_order[of demo_library ?ts task_null task_b] by (elim conjE)
  then have s: "sorted (map (task_sort_key demo_library) [task_b, task_c, task_null, task_a])"
    unfolding ex .
  have asc: "list_all is_ascii (t_description task_banana)"
    by (simp add: task_banana_def is_ascii_def)
  have "list_all is_ascii (t_description task_banana) \<longrightarrow>
      list_all2 same_letter (t_description task_banana) (name_key demo_library task_banana) \<and>
      (\<forall>c \<in> set (name_key demo_library task_banana). \<not> (CHR ''A'' \<le> c \<and> c \<le> CHR ''Z''))"
    using sort_tasks_display_order[of demo_library "[]" task_banana task_apple] by (elim conjE)
  with asc have same:
    "list_all2 same_letter (t_description task_banana) (name_key demo_library task_banana)"
    by blast
  have nk: "name_key demo_library task_banana = ''banana''"
    by (simp add: key_defs task_banana_def)
  show ?thesis using ex prem s sort_example_case asc same nk by blast
qed

text \<open>
  C4 as stated fails: a task without an order key does not come after a task of the same
  cohort whose order key is 1000.
\<close>

theorem null_key_not_last_counterexample:
  "t_order_index task_null = None \<and> t_order_index task_late = Some 1000 \<and>
   t_is_completed task_null = t_is_completed task_late \<and>
   sort_tasks demo_library [task_late, task_null] = [task_null, task_late]"
  by (simp add: sort_tasks_def key_defs task_late_def task_null_def)

end
